theory Spec2Isabelle
  imports
    Main
    "HOL-Library.AList"
    "HOL-Library.Char_ord"
    "HOL-Library.List_Lexorder"
    "HOL-Library.Multiset"
    "HOL-Library.Product_Lexorder"
begin

section \<open>automerge-py, \<^verbatim>\<open>automerge/apply_patch.py\<close>: applying a patch to a document\<close>

text \<open>
  The module applies a JSON-shaped patch tree to a document made of nested \<^verbatim>\<open>Map\<close> and
  \<^verbatim>\<open>List\<close> containers. The embedding follows the Python text function by function:
  every exception the interpreter can raise in those lines is a branch of the model, and
  every container lives in an explicit store, because the Python mutates containers that
  several places refer to.

  Python strings are modelled by \<^typ>\<open>string\<close>: sequences of code points below 256. On
  those, the regular-expression class \<^verbatim>\<open>\d\<close> matches exactly the ten ASCII digits, and the
  order of \<^typ>\<open>string\<close> (lexicographic on code points) is the order Python's
  \<^verbatim>\<open>>\<close> uses on \<^verbatim>\<open>str\<close>. Python integers are \<^typ>\<open>int\<close>.
\<close>

subsection \<open>Exceptions\<close>

text \<open>
  The two \<^verbatim>\<open>raise Exception(...)\<close> statements of the module are told apart by the names
  the specification gives them; the other constructors are the built-in exceptions the
  interpreter raises in the modelled lines. \<open>DanglingRef\<close> is no Python exception: it is
  the model's answer when a reference points outside the store, which no Python state
  does.
\<close>

datatype error =
    MalformedIdentifier
  | UnknownPatchType
  | AttributeError
  | KeyError
  | IndexError
  | TypeError
  | AssertionError
  | DanglingRef

subsection \<open>Lamport identifiers: \<^verbatim>\<open>parse_op_id\<close> and \<^verbatim>\<open>lamport_compare\<close>\<close>

datatype OpId = OpId (counter: int) (actorId: string)

definition is_digit :: "char \<Rightarrow> bool" where
  "is_digit c = (c \<in> set ''0123456789'')"

definition newline :: char where
  "newline = CHR 0x0A"

text \<open>Python's \<^verbatim>\<open>int\<close> on a string of decimal digits (leading zeros allowed).\<close>

definition digit_value :: "char \<Rightarrow> int" where
  "digit_value c = int (of_char c) - 48"

definition int_of_digits :: "string \<Rightarrow> int" where
  "int_of_digits ds = foldl (\<lambda>acc c. 10 * acc + digit_value c) 0 ds"

text \<open>
  \<^verbatim>\<open>OP_ID_RE = re.compile("^(\d+)@(.*)$")\<close>, used with \<^verbatim>\<open>match\<close>. The greedy \<^verbatim>\<open>\d+\<close>
  takes the longest run of leading digits (backtracking to a shorter run would need a
  digit to be \<^verbatim>\<open>@\<close>); \<^verbatim>\<open>.\<close> matches any character except a newline, so \<^verbatim>\<open>(.*)\<close> takes
  everything up to the first newline; \<^verbatim>\<open>$\<close> without \<^verbatim>\<open>re.MULTILINE\<close> matches at the end of
  the string and also just before a newline that is the last character.
\<close>

definition parse_op_id :: "string \<Rightarrow> error + OpId" where
  "parse_op_id op_id =
     (let ds = takeWhile is_digit op_id in
      if ds = [] then Inl MalformedIdentifier
      else case dropWhile is_digit op_id of
          [] \<Rightarrow> Inl MalformedIdentifier
        | c # rest \<Rightarrow>
            if c \<noteq> CHR ''@'' then Inl MalformedIdentifier
            else let tail = dropWhile (\<lambda>x. x \<noteq> newline) rest in
              if tail = [] \<or> tail = [newline]
              then Inr (OpId (int_of_digits ds) (takeWhile (\<lambda>x. x \<noteq> newline) rest))
              else Inl MalformedIdentifier)"

text \<open>
  \<^verbatim>\<open>lamport_compare\<close> parses \<^verbatim>\<open>ts1\<close> first, then \<^verbatim>\<open>ts2\<close>; an identifier that does not
  parse raises out of the comparison.
\<close>

definition lamport_compare :: "string \<Rightarrow> string \<Rightarrow> error + int" where
  "lamport_compare ts1 ts2 =
     (case parse_op_id ts1 of
        Inl e \<Rightarrow> Inl e
      | Inr time1 \<Rightarrow>
          (case parse_op_id ts2 of
             Inl e \<Rightarrow> Inl e
           | Inr time2 \<Rightarrow>
               if counter time1 \<noteq> counter time2 then Inr (counter time1 - counter time2)
               else if actorId time1 \<noteq> actorId time2
                 then Inr (if actorId time1 > actorId time2 then 1 else - 1)
               else Inr 0))"

text \<open>
  The shape \<^verbatim>\<open><digits>@<rest>\<close> in the words of the specification: a non-empty run of
  digits, an \<^verbatim>\<open>@\<close>, and any remainder; the parsed identifier has the integer prefix as
  counter and the remainder after the \<^verbatim>\<open>@\<close> as actor.
\<close>

definition spec_shape :: "string \<Rightarrow> bool" where
  "spec_shape text =
     (takeWhile is_digit text \<noteq> [] \<and>
      (case dropWhile is_digit text of [] \<Rightarrow> False | c # rest \<Rightarrow> c = CHR ''@''))"

definition spec_parse :: "string \<Rightarrow> error + OpId" where
  "spec_parse text =
     (if spec_shape text
      then Inr (OpId (int_of_digits (takeWhile is_digit text)) (tl (dropWhile is_digit text)))
      else Inl MalformedIdentifier)"

subsection \<open>Document values and the store\<close>

text \<open>
  A primitive is one of the JSON scalars (numbers are taken as integers). \<open>PNone\<close> is
  Python's \<^verbatim>\<open>None\<close>: the value \<^verbatim>\<open>None\<close> that \<^verbatim>\<open>apply_patch\<close> receives for "no object" and
  the placeholder \<^verbatim>\<open>update_list_obj\<close> inserts are this same value.
\<close>

datatype prim = PNone | PBool bool | PInt int | PStr string


text \<open>
  Modelled from the spec: the classes \<^verbatim>\<open>Map\<close>, \<^verbatim>\<open>List\<close> and \<^verbatim>\<open>Counter\<close> of
  \<^verbatim>\<open>automerge/datatypes.py\<close>, which the module imports and which are not among the source
  files. A \<^verbatim>\<open>Counter\<close> is "represented purely as its current value": it carries no
  \<^verbatim>\<open>object_id\<close> and no frozen marker, so reading the one or writing the other raises
  \<^verbatim>\<open>AttributeError\<close>, as on a primitive. A \<^verbatim>\<open>Map\<close> is a Python mapping from key to value that
  carries \<^verbatim>\<open>object_id\<close>, \<^verbatim>\<open>_frozen\<close> and \<^verbatim>\<open>recent_ops\<close> (a \<^verbatim>\<open>dict\<close> from key to a \<^verbatim>\<open>dict\<close> from
  operation id to value); a \<^verbatim>\<open>List\<close> is a Python sequence that carries \<^verbatim>\<open>object_id\<close>,
  \<^verbatim>\<open>_frozen\<close>, \<^verbatim>\<open>elem_ids\<close> and \<^verbatim>\<open>recent_ops\<close> (a \<^verbatim>\<open>list\<close>, positional, whose entries are
  \<^verbatim>\<open>None\<close> or such a \<^verbatim>\<open>dict\<close>). The source calls \<^verbatim>\<open>Map([], id)\<close>, \<^verbatim>\<open>List([], id)\<close>,
  \<^verbatim>\<open>obj[key] = v\<close>, \<^verbatim>\<open>del obj[key]\<close>, \<^verbatim>\<open>listobj.insert\<close> and \<^verbatim>\<open>len\<close> on them; they are given
  the behaviour of Python's \<^verbatim>\<open>dict\<close> and \<^verbatim>\<open>list\<close> for these, including the truth value of
  a sized container (empty is false). A freshly constructed container is empty, with empty
  history, and is frozen ("true whenever no apply operation is in progress on it"). The
  frozen marker is data only: the guard the classes may build on it is not modelled, and
  every write of the module happens on a container the module has just unfrozen.

  A Python \<^verbatim>\<open>dict\<close> is an association list with distinct keys in insertion order;
  containers are referred to by their address in the store.
\<close>

datatype val = VPrim prim | VCounter prim | VRef nat

abbreviation VNone :: val where
  "VNone \<equiv> VPrim PNone"

datatype key = KStr string | KInt int

type_synonym conflicts = "(string \<times> val) list"

datatype obj =
    MapObj (object_id: string) (frozen: bool)
      (entries: "(key \<times> val) list") (map_recent_ops: "(key \<times> conflicts) list")
  | ListObj (object_id: string) (frozen: bool)
      (items: "val list") (elem_ids: "string list") (list_recent_ops: "conflicts option list")

type_synonym heap = "obj list"


text \<open>
  Allocation appends to the store, so an address once valid stays valid; nothing is ever
  removed from the store.
\<close>

definition heap_get :: "heap \<Rightarrow> nat \<Rightarrow> obj option" where
  "heap_get h a = (if a < length h then Some (h ! a) else None)"

definition alloc :: "heap \<Rightarrow> obj \<Rightarrow> nat \<times> heap" where
  "alloc h ob = (length h, h @ [ob])"

definition new_Map :: "string \<Rightarrow> obj" where
  "new_Map oid = MapObj oid True [] []"

definition new_List :: "string \<Rightarrow> obj" where
  "new_List oid = ListObj oid True [] [] []"


subsection \<open>Patches\<close>

text \<open>
  A patch is a JSON object; each field the source probes with \<^verbatim>\<open>in\<close> or reads with
  \<^verbatim>\<open>patch[...]\<close> is optional, and reading an absent one raises \<^verbatim>\<open>KeyError\<close>. \<^verbatim>\<open>props\<close> is a
  \<^verbatim>\<open>dict\<close> from key (a string for a map, an integer index for a list) to a \<^verbatim>\<open>dict\<close> from
  operation id to sub-patch; both are association lists in iteration order. An edit
  always has \<^verbatim>\<open>action\<close> and \<^verbatim>\<open>index\<close>; \<^verbatim>\<open>elemId\<close> is optional.
\<close>

datatype edit = Edit (edit_action: string) (edit_index: int) (edit_elemId: "string option")

datatype patch = Patch
  (patch_objectId: "string option")
  (patch_type: "string option")
  (patch_datatype: "string option")
  (patch_value: "prim option")
  (patch_props: "(key \<times> (string \<times> patch) list) list option")
  (patch_edits: "edit list option")


subsection \<open>Python sequences and dictionaries\<close>

text \<open>
  Subscripts of a Python list may be negative (counted from the end); \<^verbatim>\<open>xs[i]\<close>,
  \<^verbatim>\<open>xs[i] = v\<close> and \<^verbatim>\<open>del xs[i]\<close> raise \<^verbatim>\<open>IndexError\<close> out of range, \<^verbatim>\<open>xs.insert(i, v)\<close>
  clamps the position and never raises. \<^verbatim>\<open>del d[k]\<close> on a \<^verbatim>\<open>dict\<close> raises \<^verbatim>\<open>KeyError\<close> when
  \<^verbatim>\<open>k\<close> is absent; \<^verbatim>\<open>d[k] = v\<close> keeps the position of a key already present and appends a
  new one.
\<close>

definition py_index :: "nat \<Rightarrow> int \<Rightarrow> nat option" where
  "py_index n i =
     (if 0 \<le> i \<and> i < int n then Some (nat i)
      else if i < 0 \<and> - int n \<le> i then Some (nat (int n + i))
      else None)"

definition list_insert :: "'a list \<Rightarrow> int \<Rightarrow> 'a \<Rightarrow> 'a list" where
  "list_insert xs i v =
     (let n = int (length xs);
          k = nat (if i < 0 then max 0 (i + n) else min i n)
      in take k xs @ v # drop k xs)"

definition list_delitem :: "'a list \<Rightarrow> int \<Rightarrow> error + 'a list" where
  "list_delitem xs i =
     (case py_index (length xs) i of
        None \<Rightarrow> Inl IndexError
      | Some k \<Rightarrow> Inr (take k xs @ drop (Suc k) xs))"

definition list_setitem :: "'a list \<Rightarrow> int \<Rightarrow> 'a \<Rightarrow> error + 'a list" where
  "list_setitem xs i v =
     (case py_index (length xs) i of
        None \<Rightarrow> Inl IndexError
      | Some k \<Rightarrow> Inr (xs[k := v]))"

definition dict_delitem :: "('k \<times> 'v) list \<Rightarrow> 'k \<Rightarrow> error + ('k \<times> 'v) list" where
  "dict_delitem d k =
     (case map_of d k of None \<Rightarrow> Inl KeyError | Some _ \<Rightarrow> Inr (AList.delete k d))"

definition dict_setitem :: "('k \<times> 'v) list \<Rightarrow> 'k \<Rightarrow> 'v \<Rightarrow> ('k \<times> 'v) list" where
  "dict_setitem d k v = AList.update k v d"


subsection \<open>Attribute access and truth values\<close>

text \<open>
  Python's truth value of a primitive and of a container (\<^verbatim>\<open>if conflict and ...\<close>).
\<close>

fun truthy_prim :: "prim \<Rightarrow> bool" where
  "truthy_prim PNone = False"
| "truthy_prim (PBool b) = b"
| "truthy_prim (PInt i) = (i \<noteq> 0)"
| "truthy_prim (PStr s) = (s \<noteq> [])"

fun truthy_obj :: "obj \<Rightarrow> bool" where
  "truthy_obj (MapObj oid f es ro) = (es \<noteq> [])"
| "truthy_obj (ListObj oid f vs ids ro) = (vs \<noteq> [])"

fun set_frozen_obj :: "bool \<Rightarrow> obj \<Rightarrow> obj" where
  "set_frozen_obj b (MapObj oid f es ro) = MapObj oid b es ro"
| "set_frozen_obj b (ListObj oid f vs ids ro) = ListObj oid b vs ids ro"


text \<open>
  \<^verbatim>\<open>obj._frozen = b\<close>. On a primitive (\<^verbatim>\<open>int\<close>, \<^verbatim>\<open>str\<close>, \<^verbatim>\<open>bool\<close>) and on a counter the
  assignment raises \<^verbatim>\<open>AttributeError\<close>.
\<close>

fun set_frozen :: "heap \<Rightarrow> val \<Rightarrow> bool \<Rightarrow> error + heap" where
  "set_frozen h (VPrim p) b = Inl AttributeError"
| "set_frozen h (VCounter c) b = Inl AttributeError"
| "set_frozen h (VRef a) b =
     (case heap_get h a of
        None \<Rightarrow> Inl DanglingRef
      | Some ob \<Rightarrow> Inr (h[a := set_frozen_obj b ob]))"


text \<open>
  The condition \<^verbatim>\<open>conflict and conflict.object_id != patch["objectId"]\<close> of \<^verbatim>\<open>get_value\<close>:
  a false \<^verbatim>\<open>conflict\<close> (\<^verbatim>\<open>None\<close>, \<^verbatim>\<open>0\<close>, \<^verbatim>\<open>""\<close>, \<^verbatim>\<open>False\<close>, an empty container) makes it false
  without looking at \<^verbatim>\<open>object_id\<close>; a true primitive has no \<^verbatim>\<open>object_id\<close>. For a counter the
  truth value is not known from the specification; either way the next attribute access
  on it raises \<^verbatim>\<open>AttributeError\<close> with the store as it is, which is what the model returns.
\<close>

fun object_id_differs :: "heap \<Rightarrow> val \<Rightarrow> string \<Rightarrow> error + bool" where
  "object_id_differs h (VPrim p) oid = (if truthy_prim p then Inl AttributeError else Inr False)"
| "object_id_differs h (VCounter c) oid = Inl AttributeError"
| "object_id_differs h (VRef a) oid =
     (case heap_get h a of
        None \<Rightarrow> Inl DanglingRef
      | Some ob \<Rightarrow> Inr (truthy_obj ob \<and> object_id ob \<noteq> oid))"


subsection \<open>\<^verbatim>\<open>apply_properties\<close>: the pieces of the loop body\<close>

text \<open>
  The stored candidate the inner loop hands to \<^verbatim>\<open>get_value\<close>: the value of
  \<^verbatim>\<open>our_recent_ops[key][patch_op_id]\<close> when \<^verbatim>\<open>have_key_entry and (patch_op_id in
  our_recent_ops[key])\<close> holds, and nothing otherwise. For a \<^verbatim>\<open>Map\<close> the history is a
  \<^verbatim>\<open>dict\<close> and \<^verbatim>\<open>have_key_entry\<close> is \<^verbatim>\<open>key in our_recent_ops\<close>; for a \<^verbatim>\<open>List\<close> it is
  \<^verbatim>\<open>key < len(our_recent_ops) and our_recent_ops[key]\<close>, where comparing a string key with
  an integer raises \<^verbatim>\<open>TypeError\<close>, a negative key is a subscript from the end, and a
  \<^verbatim>\<open>None\<close> or empty entry is false.
\<close>

fun stored_candidate :: "obj \<Rightarrow> key \<Rightarrow> string \<Rightarrow> error + val option" where
  "stored_candidate (MapObj oid f es ro) k op_id =
     (case map_of ro k of
        None \<Rightarrow> Inr None
      | Some d \<Rightarrow> Inr (map_of d op_id))"
| "stored_candidate (ListObj oid f vs ids ro) (KStr s) op_id = Inl TypeError"
| "stored_candidate (ListObj oid f vs ids ro) (KInt i) op_id =
     (if i < int (length ro)
      then (case py_index (length ro) i of
              None \<Rightarrow> Inl IndexError
            | Some n \<Rightarrow>
                (case ro ! n of
                   None \<Rightarrow> Inr None
                 | Some d \<Rightarrow> Inr (map_of d op_id)))
      else Inr None)"


text \<open>
  The first argument of the call of \<^verbatim>\<open>get_value\<close> in the inner loop, with the store after
  the allocation it may need: the stored candidate if there is one; otherwise, for a
  sub-patch with an \<^verbatim>\<open>objectId\<close>, a new \<^verbatim>\<open>Map\<close> when \<^verbatim>\<open>subpatch["type"] == "map"\<close> and a new
  \<^verbatim>\<open>List\<close> for every other type; otherwise \<^verbatim>\<open>None\<close>. The three calls of \<^verbatim>\<open>get_value\<close> in the
  source differ in this argument only.
\<close>

fun candidate_conflict ::
  "heap \<Rightarrow> obj \<Rightarrow> key \<Rightarrow> string \<Rightarrow> patch \<Rightarrow> (error \<times> heap) + (val \<times> heap)" where
  "candidate_conflict h ob k op_id subpatch =
     (case stored_candidate ob k op_id of
        Inl e \<Rightarrow> Inl (e, h)
      | Inr (Some old) \<Rightarrow> Inr (old, h)
      | Inr None \<Rightarrow>
          (case patch_objectId subpatch of
             None \<Rightarrow> Inr (VNone, h)
           | Some oid \<Rightarrow>
               (case patch_type subpatch of
                  None \<Rightarrow> Inl (KeyError, h)
                | Some t \<Rightarrow>
                    (let (a, h') = alloc h (if t = ''map'' then new_Map oid else new_List oid)
                     in Inr (VRef a, h')))))"


text \<open>
  \<^verbatim>\<open>del obj[key]\<close>, \<^verbatim>\<open>del our_recent_ops[key]\<close>, \<^verbatim>\<open>obj[key] = v\<close> and
  \<^verbatim>\<open>our_recent_ops[key] = values\<close> on either kind of container. On a \<^verbatim>\<open>List\<close> these are
  list operations on the values and on the history; none of them touches \<^verbatim>\<open>elem_ids\<close>.
\<close>

fun del_item :: "obj \<Rightarrow> key \<Rightarrow> error + obj" where
  "del_item (MapObj oid f es ro) k =
     (case dict_delitem es k of Inl e \<Rightarrow> Inl e | Inr es' \<Rightarrow> Inr (MapObj oid f es' ro))"
| "del_item (ListObj oid f vs ids ro) (KStr s) = Inl TypeError"
| "del_item (ListObj oid f vs ids ro) (KInt i) =
     (case list_delitem vs i of Inl e \<Rightarrow> Inl e | Inr vs' \<Rightarrow> Inr (ListObj oid f vs' ids ro))"

fun del_recent :: "obj \<Rightarrow> key \<Rightarrow> error + obj" where
  "del_recent (MapObj oid f es ro) k =
     (case dict_delitem ro k of Inl e \<Rightarrow> Inl e | Inr ro' \<Rightarrow> Inr (MapObj oid f es ro'))"
| "del_recent (ListObj oid f vs ids ro) (KStr s) = Inl TypeError"
| "del_recent (ListObj oid f vs ids ro) (KInt i) =
     (case list_delitem ro i of Inl e \<Rightarrow> Inl e | Inr ro' \<Rightarrow> Inr (ListObj oid f vs ids ro'))"

fun set_item :: "obj \<Rightarrow> key \<Rightarrow> val \<Rightarrow> error + obj" where
  "set_item (MapObj oid f es ro) k v = Inr (MapObj oid f (dict_setitem es k v) ro)"
| "set_item (ListObj oid f vs ids ro) (KStr s) v = Inl TypeError"
| "set_item (ListObj oid f vs ids ro) (KInt i) v =
     (case list_setitem vs i v of Inl e \<Rightarrow> Inl e | Inr vs' \<Rightarrow> Inr (ListObj oid f vs' ids ro))"

fun set_recent :: "obj \<Rightarrow> key \<Rightarrow> conflicts \<Rightarrow> error + obj" where
  "set_recent (MapObj oid f es ro) k d = Inr (MapObj oid f es (dict_setitem ro k d))"
| "set_recent (ListObj oid f vs ids ro) (KStr s) d = Inl TypeError"
| "set_recent (ListObj oid f vs ids ro) (KInt i) d =
     (case list_setitem ro i (Some d) of
        Inl e \<Rightarrow> Inl e
      | Inr ro' \<Rightarrow> Inr (ListObj oid f vs ids ro'))"


text \<open>
  The end of the loop body (\<^verbatim>\<open>if len(patch_op_ids) == 0: ... else: ...\<close>). The two writes
  happen one after the other on the container at address \<open>a\<close>; when the second raises, the
  first has been done.
\<close>

definition store_slot ::
  "heap \<Rightarrow> nat \<Rightarrow> key \<Rightarrow> (string \<times> patch) list \<Rightarrow> conflicts \<Rightarrow> (error \<times> heap) + heap" where
  "store_slot h a k patch_op_ids values =
     (case heap_get h a of
        None \<Rightarrow> Inl (DanglingRef, h)
      | Some ob \<Rightarrow>
          (case patch_op_ids of
             [] \<Rightarrow>
               (case del_item ob k of
                  Inl e \<Rightarrow> Inl (e, h)
                | Inr ob1 \<Rightarrow>
                    (case del_recent ob1 k of
                       Inl e \<Rightarrow> Inl (e, h[a := ob1])
                     | Inr ob2 \<Rightarrow> Inr (h[a := ob2])))
           | first # _ \<Rightarrow>
               (case map_of values (fst first) of
                  None \<Rightarrow> Inl (KeyError, h)
                | Some v \<Rightarrow>
                    (case set_item ob k v of
                       Inl e \<Rightarrow> Inl (e, h)
                     | Inr ob1 \<Rightarrow>
                         (case set_recent ob1 k values of
                            Inl e \<Rightarrow> Inl (e, h[a := ob1])
                          | Inr ob2 \<Rightarrow> Inr (h[a := ob2]))))))"


subsection \<open>Sorting the operation ids\<close>

text \<open>
  \<^verbatim>\<open>patch_op_ids.sort(key=cmp_to_key(lamport_compare))\<close> sorts with \<^verbatim>\<open>x < y\<close> meaning
  \<^verbatim>\<open>lamport_compare(x, y) < 0\<close>. Python's sort is stable; it is modelled by the stable
  insertion sort. On identifiers that all parse the comparison is a total preorder, for
  which every stable sort returns the same list. A list of fewer than two elements is
  returned without any comparison (so a single unparsable id is not noticed); in a longer
  list every element takes part in a comparison, each comparison parses both of its
  arguments, and an unparsable id raises: \<open>lamport_sort_raises_iff\<close> below.

  The source sorts the keys and reads \<^verbatim>\<open>patch_recent_ops[patch_op_id]\<close> again in the loop;
  the model sorts the items of the \<^verbatim>\<open>dict\<close> by their key, which for distinct keys is the
  same sequence of pairs.
\<close>

fun lamport_insert :: "string \<times> 'a \<Rightarrow> (string \<times> 'a) list \<Rightarrow> error + (string \<times> 'a) list" where
  "lamport_insert x [] = Inr [x]"
| "lamport_insert x (y # ys) =
     (case lamport_compare (fst y) (fst x) of
        Inl e \<Rightarrow> Inl e
      | Inr c \<Rightarrow>
          if c < 0
          then (case lamport_insert x ys of Inl e \<Rightarrow> Inl e | Inr zs \<Rightarrow> Inr (y # zs))
          else Inr (x # y # ys))"

fun lamport_sort :: "(string \<times> 'a) list \<Rightarrow> error + (string \<times> 'a) list" where
  "lamport_sort [] = Inr []"
| "lamport_sort (x # xs) =
     (case lamport_sort xs of Inl e \<Rightarrow> Inl e | Inr ys \<Rightarrow> lamport_insert x ys)"


subsection \<open>\<^verbatim>\<open>update_list_obj\<close>: the edits\<close>

text \<open>
  One round of the loop over \<^verbatim>\<open>edits\<close>, on the list object. \<^verbatim>\<open>edit["elemId"]\<close> is read
  before the first insertion; the three deletions happen in the order \<^verbatim>\<open>elem_ids\<close>,
  values, history, and one that raises leaves the earlier ones done. An action that is
  neither \<^verbatim>\<open>insert\<close> nor \<^verbatim>\<open>remove\<close> is skipped.
\<close>

fun apply_edit :: "obj \<Rightarrow> edit \<Rightarrow> (error \<times> obj) + obj" where
  "apply_edit (MapObj oid f es ro) e = Inl (AttributeError, MapObj oid f es ro)"
| "apply_edit (ListObj oid f vs ids ro) e =
     (let idx = edit_index e in
      if edit_action e = ''insert'' then
        (case edit_elemId e of
           None \<Rightarrow> Inl (KeyError, ListObj oid f vs ids ro)
         | Some eid \<Rightarrow>
             Inr (ListObj oid f (list_insert vs idx VNone) (list_insert ids idx eid)
                    (list_insert ro idx None)))
      else if edit_action e = ''remove'' then
        (case list_delitem ids idx of
           Inl er \<Rightarrow> Inl (er, ListObj oid f vs ids ro)
         | Inr ids' \<Rightarrow>
             (case list_delitem vs idx of
                Inl er \<Rightarrow> Inl (er, ListObj oid f vs ids' ro)
              | Inr vs' \<Rightarrow>
                  (case list_delitem ro idx of
                     Inl er \<Rightarrow> Inl (er, ListObj oid f vs' ids' ro)
                   | Inr ro' \<Rightarrow> Inr (ListObj oid f vs' ids' ro'))))
      else Inr (ListObj oid f vs ids ro))"

fun apply_edits :: "obj \<Rightarrow> edit list \<Rightarrow> (error \<times> obj) + obj" where
  "apply_edits ob [] = Inr ob"
| "apply_edits ob (e # es) =
     (case apply_edit ob e of Inl x \<Rightarrow> Inl x | Inr ob' \<Rightarrow> apply_edits ob' es)"


subsection \<open>\<^verbatim>\<open>apply_patch\<close>, \<^verbatim>\<open>get_value\<close>, \<^verbatim>\<open>apply_properties\<close>, \<^verbatim>\<open>update_list_obj\<close>\<close>

text \<open>
  The four functions call one another; \<open>props_loop\<close> is the loop over \<^verbatim>\<open>props.items()\<close> of
  \<^verbatim>\<open>apply_properties\<close> and \<open>cands_loop\<close> its inner loop over the sorted ids, which builds
  \<^verbatim>\<open>values\<close>. Every function takes the store and returns it; a result \<open>Inl (e, h)\<close> is the
  exception \<open>e\<close> raised with the store as \<open>h\<close>. The recursion follows the patch tree, whose
  size (with the sort in between, which keeps the multiset of candidates) is the
  termination measure.
\<close>

abbreviation cands_size :: "(string \<times> patch) list \<Rightarrow> nat" where
  "cands_size \<equiv> size_list (size_prod (\<lambda>_. 0) size)"

abbreviation props_size :: "(key \<times> (string \<times> patch) list) list \<Rightarrow> nat" where
  "props_size \<equiv> size_list (size_prod (\<lambda>_. 0) cands_size)"

lemma lamport_insert_mset: "lamport_insert x ys = Inr zs \<Longrightarrow> mset zs = add_mset x (mset ys)"
  by (induction ys arbitrary: zs) (auto split: sum.splits if_splits)

lemma lamport_sort_mset: "lamport_sort xs = Inr ys \<Longrightarrow> mset ys = mset xs"
  by (induction xs arbitrary: ys) (auto split: sum.splits dest: lamport_insert_mset)

lemma size_list_mset: "mset xs = mset ys \<Longrightarrow> size_list f xs = size_list f ys"
  by (metis mset_map size_list_conv_sum_list size_mset sum_mset_sum_list)

lemma lamport_sort_size: "lamport_sort xs = Inr ys \<Longrightarrow> size_list f (rev ys) = size_list f xs"
  by (rule size_list_mset) (simp add: lamport_sort_mset)

lemma patch_props_size: "patch_props p = Some ps \<Longrightarrow> size p = props_size ps + 2"
  by (cases p) simp

function
  apply_patch :: "heap \<Rightarrow> val \<Rightarrow> patch \<Rightarrow> (error \<times> heap) + (val \<times> heap)" and
  get_value :: "heap \<Rightarrow> val \<Rightarrow> patch \<Rightarrow> (error \<times> heap) + (val \<times> heap)" and
  apply_properties ::
    "heap \<Rightarrow> val \<Rightarrow> (key \<times> (string \<times> patch) list) list \<Rightarrow> (error \<times> heap) + heap" and
  props_loop ::
    "heap \<Rightarrow> nat \<Rightarrow> (key \<times> (string \<times> patch) list) list \<Rightarrow> (error \<times> heap) + heap" and
  cands_loop ::
    "heap \<Rightarrow> nat \<Rightarrow> key \<Rightarrow> (string \<times> patch) list \<Rightarrow> conflicts \<Rightarrow>
       (error \<times> heap) + (conflicts \<times> heap)" and
  update_list_obj ::
    "heap \<Rightarrow> val \<Rightarrow> (key \<times> (string \<times> patch) list) list \<Rightarrow> edit list \<Rightarrow>
       (error \<times> heap) + heap"
where
  "apply_patch h obj patch =
     (let not_none = (obj \<noteq> VNone) in
      case (if not_none then set_frozen h obj False else Inr h) of
        Inl e \<Rightarrow> Inl (e, h)
      | Inr h1 \<Rightarrow>
          if not_none \<and> patch_props patch = None \<and> patch_edits patch = None then
            (case set_frozen h1 obj True of
               Inl e \<Rightarrow> Inl (e, h1)
             | Inr h2 \<Rightarrow> Inr (obj, h2))
          else
            (case patch_type patch of
               None \<Rightarrow> Inl (KeyError, h1)
             | Some t \<Rightarrow>
                 (case
                    (if t = ''map'' then
                       (case patch_props patch of
                          None \<Rightarrow> Inl (KeyError, h1)
                        | Some props \<Rightarrow> apply_properties h1 obj props)
                     else if t = ''list'' then
                       (case patch_props patch of
                          None \<Rightarrow> Inl (KeyError, h1)
                        | Some props \<Rightarrow>
                            (case patch_edits patch of
                               None \<Rightarrow> Inl (KeyError, h1)
                             | Some edits \<Rightarrow> update_list_obj h1 obj props edits))
                     else Inl (UnknownPatchType, h1))
                  of
                    Inl eh \<Rightarrow> Inl eh
                  | Inr h2 \<Rightarrow>
                      if not_none then
                        (case set_frozen h2 obj True of
                           Inl e \<Rightarrow> Inl (e, h2)
                         | Inr h3 \<Rightarrow> Inr (obj, h3))
                      else Inr (obj, h2))))"
| "get_value h conflict patch =
     (case patch_objectId patch of
        Some oid \<Rightarrow>
          (case object_id_differs h conflict oid of
             Inl e \<Rightarrow> Inl (e, h)
           | Inr False \<Rightarrow> apply_patch h conflict patch
           | Inr True \<Rightarrow>
               (case patch_type patch of
                  None \<Rightarrow> Inl (KeyError, h)
                | Some t \<Rightarrow>
                    if t = ''map'' then
                      (let (a, h') = alloc h (new_Map oid) in apply_patch h' (VRef a) patch)
                    else if t = ''list'' then
                      (let (a, h') = alloc h (new_List oid) in apply_patch h' (VRef a) patch)
                    else Inl (AssertionError, h)))
      | None \<Rightarrow>
          (case patch_datatype patch of
             Some _ \<Rightarrow>
               (case patch_value patch of
                  None \<Rightarrow> Inl (KeyError, h)
                | Some v \<Rightarrow> Inr (VCounter v, h))
           | None \<Rightarrow>
               (case patch_value patch of
                  None \<Rightarrow> Inl (KeyError, h)
                | Some v \<Rightarrow> Inr (VPrim v, h))))"
| "apply_properties h obj props =
     (case obj of
        VPrim p \<Rightarrow> Inl (AttributeError, h)
      | VCounter c \<Rightarrow> Inl (AttributeError, h)
      | VRef a \<Rightarrow>
          (case heap_get h a of
             None \<Rightarrow> Inl (DanglingRef, h)
           | Some ob \<Rightarrow> props_loop h a props))"
| "props_loop h a [] = Inr h"
| "props_loop h a ((k, patch_recent_ops) # props) =
     (case lamport_sort patch_recent_ops of
        Inl e \<Rightarrow> Inl (e, h)
      | Inr sorted_ids \<Rightarrow>
          (case cands_loop h a k (rev sorted_ids) [] of
             Inl eh \<Rightarrow> Inl eh
           | Inr (values, h1) \<Rightarrow>
               (case store_slot h1 a k (rev sorted_ids) values of
                  Inl eh \<Rightarrow> Inl eh
                | Inr h2 \<Rightarrow> props_loop h2 a props)))"
| "cands_loop h a k [] values = Inr (values, h)"
| "cands_loop h a k ((patch_op_id, subpatch) # rest) values =
     (case heap_get h a of
        None \<Rightarrow> Inl (DanglingRef, h)
      | Some ob \<Rightarrow>
          (case candidate_conflict h ob k patch_op_id subpatch of
             Inl eh \<Rightarrow> Inl eh
           | Inr (conflict, h0) \<Rightarrow>
               (case get_value h0 conflict subpatch of
                  Inl eh \<Rightarrow> Inl eh
                | Inr (v, h1) \<Rightarrow>
                    cands_loop h1 a k rest (dict_setitem values patch_op_id v))))"
| "update_list_obj h listobj props edits =
     (case listobj of
        VPrim p \<Rightarrow> Inl (AttributeError, h)
      | VCounter c \<Rightarrow> Inl (AttributeError, h)
      | VRef a \<Rightarrow>
          (case heap_get h a of
             None \<Rightarrow> Inl (DanglingRef, h)
           | Some (MapObj oid f es ro) \<Rightarrow> Inl (AttributeError, h)
           | Some (ListObj oid f vs ids ro) \<Rightarrow>
               (case apply_edits (ListObj oid f vs ids ro) edits of
                  Inl (e, ob') \<Rightarrow> Inl (e, h[a := ob'])
                | Inr ob' \<Rightarrow> apply_properties (h[a := ob']) listobj props)))"
  by pat_completeness auto
termination
  apply (relation "measure (\<lambda>x. case x of
       Inl (Inl (h, obj, p)) \<Rightarrow> 3 * size p
     | Inl (Inr (Inl (h, c, p))) \<Rightarrow> 3 * size p + 1
     | Inl (Inr (Inr (h, obj, ps))) \<Rightarrow> 3 * props_size ps + 1
     | Inr (Inl (h, a, ps)) \<Rightarrow> 3 * props_size ps
     | Inr (Inr (Inl (h, a, k, cs, vs))) \<Rightarrow> 3 * cands_size cs
     | Inr (Inr (Inr (h, obj, ps, es))) \<Rightarrow> 3 * props_size ps + 2)")
  apply (auto simp: lamport_sort_size patch_props_size)
  done

declare apply_patch.simps [simp del] get_value.simps [simp del]
  apply_properties.simps [simp del] update_list_obj.simps [simp del]

subsection \<open>Reading a container\<close>

text \<open>
  \<^verbatim>\<open>obj[key]\<close> and \<^verbatim>\<open>obj.recent_ops[key]\<close> as a reader of the document sees them, used to
  state what \<^verbatim>\<open>apply_properties\<close> leaves behind; \<open>None\<close> where Python raises and, for the
  history of a list, where the entry is the placeholder \<^verbatim>\<open>None\<close>.
\<close>

fun get_item :: "obj \<Rightarrow> key \<Rightarrow> val option" where
  "get_item (MapObj oid f es ro) k = map_of es k"
| "get_item (ListObj oid f vs ids ro) (KStr s) = None"
| "get_item (ListObj oid f vs ids ro) (KInt i) =
     (case py_index (length vs) i of None \<Rightarrow> None | Some n \<Rightarrow> Some (vs ! n))"

fun get_recent :: "obj \<Rightarrow> key \<Rightarrow> conflicts option" where
  "get_recent (MapObj oid f es ro) k = map_of ro k"
| "get_recent (ListObj oid f vs ids ro) (KStr s) = None"
| "get_recent (ListObj oid f vs ids ro) (KInt i) =
     (case py_index (length ro) i of None \<Rightarrow> None | Some n \<Rightarrow> ro ! n)"

text \<open>
  The three sequences of a \<^verbatim>\<open>List\<close> have the same length.
\<close>

fun lock_step :: "obj \<Rightarrow> bool" where
  "lock_step (MapObj oid f es ro) = True"
| "lock_step (ListObj oid f vs ids ro) = (length vs = length ids \<and> length ids = length ro)"

text \<open>
  The pair (counter, actor) of an operation id, ordered lexicographically: the key by
  which \<^verbatim>\<open>lamport_compare\<close> orders the ids that parse.
\<close>

definition lamport_key :: "string \<times> 'a \<Rightarrow> int \<times> string" where
  "lamport_key c = (case parse_op_id (fst c) of Inl e \<Rightarrow> (0, []) | Inr t \<Rightarrow> (counter t, actorId t))"

subsection \<open>Well-formed stores\<close>

text \<open>
  A document is a tree of containers. In the store this is the layout in which every
  reference a container holds, as a value or as a stored candidate, points to a container
  allocated after it; allocation appends, so \<^verbatim>\<open>apply_patch\<close> keeps the layout
  (\<open>ordered_frame\<close> below), every acyclic document has it, and a store with a container
  that reaches itself has not.
\<close>

fun val_above :: "nat \<Rightarrow> val \<Rightarrow> bool" where
  "val_above a (VRef b) = (a < b)"
| "val_above a (VPrim p) = True"
| "val_above a (VCounter c) = True"

definition conflicts_above :: "nat \<Rightarrow> conflicts \<Rightarrow> bool" where
  "conflicts_above a d = list_all (\<lambda>c. val_above a (snd c)) d"

fun obj_ordered :: "nat \<Rightarrow> obj \<Rightarrow> bool" where
  "obj_ordered a (MapObj oid f es ro) =
     (list_all (\<lambda>e. val_above a (snd e)) es \<and> list_all (\<lambda>r. conflicts_above a (snd r)) ro)"
| "obj_ordered a (ListObj oid f vs ids ro) =
     (list_all (val_above a) vs \<and>
      list_all (\<lambda>r. case r of None \<Rightarrow> True | Some d \<Rightarrow> conflicts_above a d) ro)"

definition ordered :: "heap \<Rightarrow> bool" where
  "ordered h = list_all (\<lambda>a. obj_ordered a (h ! a)) [0..<length h]"

text \<open>
  \<open>frame n h h'\<close>: the store \<open>h'\<close> extends \<open>h\<close> and agrees with it below address \<open>n\<close>.
  \<open>lo h c\<close> is the lowest address a call of \<^verbatim>\<open>get_value\<close> on the existing entry \<open>c\<close> may
  write to: the entry itself, or the first free address.
\<close>

definition frame :: "nat \<Rightarrow> heap \<Rightarrow> heap \<Rightarrow> bool" where
  "frame n h h' = (length h \<le> length h' \<and> take n h' = take n h)"

fun lo :: "heap \<Rightarrow> val \<Rightarrow> nat" where
  "lo h (VRef b) = min b (length h)"
| "lo h (VPrim p) = length h"
| "lo h (VCounter c) = length h"

fun val_ge :: "nat \<Rightarrow> val \<Rightarrow> bool" where
  "val_ge n (VRef b) = (n \<le> b)"
| "val_ge n (VPrim p) = True"
| "val_ge n (VCounter c) = True"

fun is_map :: "obj \<Rightarrow> bool" where
  "is_map (MapObj oid f es ro) = True"
| "is_map (ListObj oid f vs ids ro) = False"

text \<open>
  A key is a string, or an index counted from the start of the list.
\<close>

fun index_key :: "key \<Rightarrow> bool" where
  "index_key (KStr s) = True"
| "index_key (KInt i) = (0 \<le> i)"

subsection \<open>The merger in the words of the specification\<close>




section \<open>Properties\<close>

subsection \<open>Lamport identifiers\<close>

lemma lamport_compare_valid:
  assumes "parse_op_id a = Inr x" and "parse_op_id b = Inr y"
  shows "lamport_compare a b =
           Inr (if counter x \<noteq> counter y then counter x - counter y
                else if actorId x \<noteq> actorId y then (if actorId x > actorId y then 1 else - 1)
                else 0)"
  using assms by (simp add: lamport_compare_def)

text \<open>
  Where the text holds no newline the parser of the source and the parser in the words of
  the specification agree.
\<close>

lemma parse_op_id_no_newline:
  assumes "newline \<notin> set text"
  shows "parse_op_id text = spec_parse text"
proof -
  have sub: "set (dropWhile is_digit text) \<subseteq> set text"
    by (metis set_dropWhileD subsetI)
  show ?thesis
  proof (cases "dropWhile is_digit text")
    case Nil
    then show ?thesis
      by (simp add: parse_op_id_def spec_parse_def spec_shape_def Let_def
          del: dropWhile_eq_Nil_conv)
  next
    case (Cons c rest)
    with sub assms have nn: "newline \<notin> set rest"
      by auto
    then have "dropWhile (\<lambda>x. x \<noteq> newline) rest = []"
      and "takeWhile (\<lambda>x. x \<noteq> newline) rest = rest"
      by (auto simp: dropWhile_eq_Nil_conv takeWhile_eq_all_conv)
    with Cons show ?thesis
      by (simp add: parse_op_id_def spec_parse_def spec_shape_def Let_def
          del: dropWhile_eq_Nil_conv)
  qed
qed

text \<open>
  Claim C7. On identifiers that parse, \<^verbatim>\<open>lamport_compare\<close> never raises and is a total
  order on the parsed identifiers: the result is zero exactly when counter and actor are
  both identical, it is negative exactly when the first counter is smaller or the counters
  agree and the first actor is lexicographically smaller, positive in the mirrored case
  (so exactly one of the three holds), swapping the arguments negates the result, and
  "less than" is transitive.
\<close>

theorem lamport_compare_total_order:
  assumes "parse_op_id a = Inr x" and "parse_op_id b = Inr y" and "parse_op_id c = Inr z"
  shows "\<exists>ab ba bc ac.
           lamport_compare a b = Inr ab \<and> lamport_compare b a = Inr ba \<and>
           lamport_compare b c = Inr bc \<and> lamport_compare a c = Inr ac \<and>
           ab = - ba \<and>
           (ab = 0 \<longleftrightarrow> counter x = counter y \<and> actorId x = actorId y) \<and>
           (ab < 0 \<longleftrightarrow> counter x < counter y \<or>
                          (counter x = counter y \<and> actorId x < actorId y)) \<and>
           (ab > 0 \<longleftrightarrow> counter x > counter y \<or>
                          (counter x = counter y \<and> actorId x > actorId y)) \<and>
           (ab < 0 \<and> bc < 0 \<longrightarrow> ac < 0) \<and>
           (ab = 0 \<longleftrightarrow> x = y)"
proof -
  let ?cmp = "\<lambda>u v :: OpId.
      if counter u \<noteq> counter v then counter u - counter v
      else if actorId u \<noteq> actorId v then (if actorId u > actorId v then 1 else - 1)
      else (0::int)"
  have neg: "?cmp x y = - ?cmp y x"
    by auto
  have zero: "?cmp x y = 0 \<longleftrightarrow> counter x = counter y \<and> actorId x = actorId y"
    by auto
  have less: "?cmp u v < 0 \<longleftrightarrow>
      counter u < counter v \<or> (counter u = counter v \<and> actorId u < actorId v)" for u v
    by auto
  have greater: "?cmp x y > 0 \<longleftrightarrow>
      counter x > counter y \<or> (counter x = counter y \<and> actorId x > actorId y)"
    by auto
  have trans: "?cmp x y < 0 \<and> ?cmp y z < 0 \<longrightarrow> ?cmp x z < 0"
    unfolding less by auto
  have ident: "?cmp x y = 0 \<longleftrightarrow> x = y"
    unfolding zero by (cases x; cases y) simp
  show ?thesis
    unfolding lamport_compare_valid [OF assms(1) assms(2)]
      lamport_compare_valid [OF assms(2) assms(1)]
      lamport_compare_valid [OF assms(2) assms(3)]
      lamport_compare_valid [OF assms(1) assms(3)]
    using neg zero less [of x y] greater trans ident
    by (intro exI conjI; (rule refl)?) blast+
qed

theorem lamport_compare_total_order_witness:
  "parse_op_id ''5@A'' = Inr (OpId 5 ''A'') \<and> parse_op_id ''7@B'' = Inr (OpId 7 ''B'') \<and>
   parse_op_id ''7@C'' = Inr (OpId 7 ''C'') \<and>
   lamport_compare ''5@A'' ''7@B'' = Inr (- 2) \<and> lamport_compare ''7@B'' ''5@A'' = Inr 2 \<and>
   lamport_compare ''7@B'' ''7@C'' = Inr (- 1) \<and>
   (\<exists>ac. lamport_compare ''5@A'' ''7@C'' = Inr ac \<and> ac < 0)"
proof -
  have a: "parse_op_id ''5@A'' = Inr (OpId 5 ''A'')" by code_simp
  have b: "parse_op_id ''7@B'' = Inr (OpId 7 ''B'')" by code_simp
  have c: "parse_op_id ''7@C'' = Inr (OpId 7 ''C'')" by code_simp
  have ab: "lamport_compare ''5@A'' ''7@B'' = Inr (- 2)" by code_simp
  have bc: "lamport_compare ''7@B'' ''7@C'' = Inr (- 1)" by code_simp
  from lamport_compare_total_order [OF a b c] ab bc a b c show ?thesis
    by auto
qed

text \<open>
  Claim C8. \<^verbatim>\<open>parse_op_id\<close> is to fail exactly on the texts that are not of the shape
  \<^verbatim>\<open><digits>@<rest>\<close> and otherwise to return the integer prefix and the remainder after
  the \<^verbatim>\<open>@\<close>. On \<^verbatim>\<open>"1@a\n"\<close> the source returns the actor \<^verbatim>\<open>"a"\<close>, not the remainder
  \<^verbatim>\<open>"a\n"\<close>, and on \<^verbatim>\<open>"1@a\nb"\<close>, which has the shape, it fails: \<^verbatim>\<open>.\<close> does not match a
  newline and \<^verbatim>\<open>$\<close> matches before a final one. (Without a newline in the text the source
  does what the claim says: \<open>parse_op_id_no_newline\<close>.)
\<close>

theorem parse_op_id_drops_trailing_newline:
  "parse_op_id (''1@a'' @ [newline]) = Inr (OpId 1 ''a'') \<and>
   spec_parse (''1@a'' @ [newline]) = Inr (OpId 1 (''a'' @ [newline])) \<and>
   spec_shape (''1@a'' @ [newline] @ ''b'') \<and>
   parse_op_id (''1@a'' @ [newline] @ ''b'') = Inl MalformedIdentifier"
  by code_simp

subsection \<open>The sort of the operation ids\<close>

text \<open>
  On ids that parse, the sign of \<^verbatim>\<open>lamport_compare\<close> is the order of the keys, and the
  model's sort is the stable sort by that key.
\<close>

lemma lamport_compare_key:
  assumes "parse_op_id (fst x) = Inr s" and "parse_op_id (fst y) = Inr t"
  shows "\<exists>r. lamport_compare (fst x) (fst y) = Inr r \<and>
           (r < 0 \<longleftrightarrow> lamport_key x < lamport_key y) \<and>
           (r \<le> 0 \<longleftrightarrow> lamport_key x \<le> lamport_key y)"
  using assms
  by (auto simp: lamport_compare_valid [OF assms] lamport_key_def less_prod_def less_eq_prod_def)

lemma lamport_insert_insort:
  assumes "\<forall>c \<in> set (x # ys). \<exists>t. parse_op_id (fst c) = Inr t"
  shows "lamport_insert x ys = Inr (insort_key lamport_key x ys)"
  using assms
proof (induction ys)
  case Nil
  then show ?case by simp
next
  case (Cons y ys)
  then obtain s t where "parse_op_id (fst y) = Inr s" "parse_op_id (fst x) = Inr t"
    by auto
  from lamport_compare_key [OF this] obtain r where
    r: "lamport_compare (fst y) (fst x) = Inr r" "r < 0 \<longleftrightarrow> lamport_key y < lamport_key x"
    by blast
  from Cons have "lamport_insert x ys = Inr (insort_key lamport_key x ys)"
    by simp
  with r show ?case
    by (auto simp: not_le)
qed

lemma lamport_sort_sort_key:
  assumes "\<forall>c \<in> set xs. \<exists>t. parse_op_id (fst c) = Inr t"
  shows "lamport_sort xs = Inr (sort_key lamport_key xs)"
  using assms
proof (induction xs)
  case Nil
  then show ?case by simp
next
  case (Cons x xs)
  then have "lamport_sort xs = Inr (sort_key lamport_key xs)"
    by simp
  moreover from Cons.prems
  have "\<forall>c \<in> set (x # sort_key lamport_key xs). \<exists>t. parse_op_id (fst c) = Inr t"
    by simp
  ultimately show ?case
    by (simp add: lamport_insert_insort)
qed




text \<open>
  The sort raises exactly when there are at least two ids and one of them does not parse,
  and what it raises is \<^verbatim>\<open>MalformedIdentifier\<close>.
\<close>

lemma parse_op_id_error: "parse_op_id s = Inl e \<Longrightarrow> e = MalformedIdentifier"
  by (auto simp: parse_op_id_def Let_def split: if_splits list.splits)

lemma lamport_compare_Inr:
  assumes "lamport_compare a b = Inr c"
  shows "(\<exists>s. parse_op_id a = Inr s) \<and> (\<exists>t. parse_op_id b = Inr t)"
  using assms by (auto simp: lamport_compare_def split: sum.splits)

lemma lamport_compare_error: "lamport_compare a b = Inl e \<Longrightarrow> e = MalformedIdentifier"
  by (auto simp: lamport_compare_def split: sum.splits if_splits dest: parse_op_id_error)

lemma lamport_insert_error: "lamport_insert x ys = Inl e \<Longrightarrow> e = MalformedIdentifier"
  by (induction ys) (auto split: sum.splits if_splits dest: lamport_compare_error)

lemma lamport_sort_error: "lamport_sort xs = Inl e \<Longrightarrow> e = MalformedIdentifier"
  by (induction xs) (auto split: sum.splits dest: lamport_insert_error)

lemma lamport_insert_Inr_valid:
  assumes "lamport_insert x (y # ys) = Inr zs"
  shows "(\<exists>s. parse_op_id (fst x) = Inr s) \<and> (\<exists>t. parse_op_id (fst y) = Inr t)"
proof -
  from assms obtain c where "lamport_compare (fst y) (fst x) = Inr c"
    by (auto split: sum.splits)
  from lamport_compare_Inr [OF this] show ?thesis by blast
qed

lemma lamport_sort_Inr_valid:
  assumes "lamport_sort xs = Inr ys" and "2 \<le> length xs"
  shows "\<forall>c \<in> set xs. \<exists>t. parse_op_id (fst c) = Inr t"
  using assms
proof (induction xs arbitrary: ys)
  case Nil
  then show ?case by simp
next
  case (Cons x xs)
  from Cons.prems obtain ys' where s: "lamport_sort xs = Inr ys'"
    and i: "lamport_insert x ys' = Inr ys"
    by (auto split: sum.splits)
  from Cons.prems(2) obtain z zs where xs: "xs = z # zs"
    by (cases xs) auto
  from lamport_sort_mset [OF s] xs obtain y ys'' where ys': "ys' = y # ys''"
    by (cases ys') auto
  from lamport_insert_Inr_valid [OF i [unfolded ys']]
  have x: "\<exists>s. parse_op_id (fst x) = Inr s" and y: "\<exists>t. parse_op_id (fst y) = Inr t"
    by blast+
  show ?case
  proof (cases zs)
    case Nil
    with xs s ys' have "y = z" by simp
    with x y xs Nil show ?thesis by simp
  next
    case (Cons z' zs')
    with xs have "2 \<le> length xs" by simp
    from Cons.IH [OF s this] x show ?thesis by simp
  qed
qed

lemma lamport_sort_raises_iff:
  "(\<exists>e. lamport_sort xs = Inl e) \<longleftrightarrow>
     2 \<le> length xs \<and> (\<exists>c \<in> set xs. \<forall>t. parse_op_id (fst c) \<noteq> Inr t)"
proof
  assume "\<exists>e. lamport_sort xs = Inl e"
  then obtain e where e: "lamport_sort xs = Inl e" ..
  have "\<exists>c \<in> set xs. \<forall>t. parse_op_id (fst c) \<noteq> Inr t"
  proof (rule ccontr)
    assume "\<not> ?thesis"
    then have "\<forall>c \<in> set xs. \<exists>t. parse_op_id (fst c) = Inr t" by blast
    from lamport_sort_sort_key [OF this] e show False by simp
  qed
  moreover have "2 \<le> length xs"
  proof (rule ccontr)
    assume "\<not> ?thesis"
    then have "length xs = 0 \<or> length xs = 1"
      by linarith
    then have "xs = [] \<or> (\<exists>x. xs = [x])"
      by (auto simp: length_Suc_conv)
    with e show False by auto
  qed
  ultimately show "2 \<le> length xs \<and> (\<exists>c \<in> set xs. \<forall>t. parse_op_id (fst c) \<noteq> Inr t)"
    by blast
next
  assume r: "2 \<le> length xs \<and> (\<exists>c \<in> set xs. \<forall>t. parse_op_id (fst c) \<noteq> Inr t)"
  show "\<exists>e. lamport_sort xs = Inl e"
  proof (cases "lamport_sort xs")
    case (Inl e)
    then show ?thesis by blast
  next
    case (Inr ys)
    from lamport_sort_Inr_valid [OF this] r show ?thesis by blast
  qed
qed

subsection \<open>The frozen marker\<close>

lemma set_frozen_Inr:
  assumes "set_frozen h obj b = Inr h'"
  shows "\<exists>a ob. obj = VRef a \<and> heap_get h a = Some ob \<and> h' = h[a := set_frozen_obj b ob]"
  using assms by (cases obj) (auto split: option.splits)

lemma heap_get_update: "heap_get h a = Some ob \<Longrightarrow> heap_get (h[a := ob']) a = Some ob'"
  by (auto simp: heap_get_def split: if_splits)

lemma frozen_set_frozen_obj: "frozen (set_frozen_obj b ob) = b"
  by (cases ob) simp_all

lemma set_frozen_obj_twice: "set_frozen_obj b (set_frozen_obj c ob) = set_frozen_obj b ob"
  by (cases ob) simp_all

lemma sum_case_InrD:
  "(case X of Inl x \<Rightarrow> Inl x | Inr y \<Rightarrow> G y) = Inr z \<Longrightarrow> \<exists>y. X = Inr y \<and> G y = Inr z"
  by (cases X) simp_all

lemma refreeze_InrD:
  "(case set_frozen h2 obj True of Inl e \<Rightarrow> Inl (e, h2) | Inr h3 \<Rightarrow> Inr (obj, h3)) = Inr (r, h')
     \<Longrightarrow> r = obj \<and> set_frozen h2 obj True = Inr h'"
  by (cases "set_frozen h2 obj True") auto

text \<open>
  A normal return of \<^verbatim>\<open>apply_patch\<close> on an object other than \<^verbatim>\<open>None\<close> returns that object,
  and its last write was \<^verbatim>\<open>obj._frozen = True\<close>.
\<close>

lemma apply_patch_Inr:
  assumes "apply_patch h obj patch = Inr (r, h')" and "obj \<noteq> VNone"
  shows "r = obj \<and> (\<exists>h2. set_frozen h2 obj True = Inr h')"
proof (cases "set_frozen h obj False")
  case (Inl e)
  with assms show ?thesis
    by (simp add: apply_patch.simps [of h obj patch])
next
  case (Inr h1)
  show ?thesis
  proof (cases "patch_props patch = None \<and> patch_edits patch = None")
    case True
    with assms Inr show ?thesis
      by (auto simp: apply_patch.simps [of h obj patch] dest!: refreeze_InrD)
  next
    case False
    with assms Inr have "\<exists>h2. (case set_frozen h2 obj True of
        Inl e \<Rightarrow> Inl (e, h2) | Inr h3 \<Rightarrow> Inr (obj, h3)) = Inr (r, h')"
      by (simp add: apply_patch.simps [of h obj patch] split: option.splits)
        (auto dest!: sum_case_InrD)
    then show ?thesis
      by (auto dest!: refreeze_InrD)
  qed
qed

text \<open>
  Claim C3, as amended. Whenever \<^verbatim>\<open>apply_patch\<close> returns normally on a present object,
  it returns that object and the object's frozen marker is true in the resulting store.
  (The claim as stated also promises this when \<^verbatim>\<open>apply_patch\<close> raises; the source has no
  \<^verbatim>\<open>try\<close>/\<^verbatim>\<open>finally\<close>, and the counterexample below shows the marker left false.)
\<close>

theorem apply_patch_refreezes_on_return:
  assumes "apply_patch h obj patch = Inr (r, h')" and "obj \<noteq> VNone"
  shows "\<exists>a ob. obj = VRef a \<and> r = VRef a \<and> heap_get h' a = Some ob \<and> frozen ob"
proof -
  from apply_patch_Inr [OF assms] obtain h2
    where "set_frozen h2 obj True = Inr h'" and "r = obj"
    by blast
  then show ?thesis
    using set_frozen_Inr heap_get_update frozen_set_frozen_obj by metis
qed

theorem apply_patch_refreezes_on_return_witness:
  "apply_patch [new_Map ''root''] (VRef 0)
      (Patch None (Some ''map'') None None
         (Some [(KStr ''x'', [(''3@A'', Patch None None None (Some (PInt 10)) None None)])]) None)
    = Inr (VRef 0, [MapObj ''root'' True [(KStr ''x'', VPrim (PInt 10))]
                      [(KStr ''x'', [(''3@A'', VPrim (PInt 10))])]]) \<and>
   (\<exists>a ob. VRef 0 = VRef a \<and>
      heap_get [MapObj ''root'' True [(KStr ''x'', VPrim (PInt 10))]
                      [(KStr ''x'', [(''3@A'', VPrim (PInt 10))])]] a = Some ob \<and> frozen ob)"
proof -
  have run: "apply_patch [new_Map ''root''] (VRef 0)
      (Patch None (Some ''map'') None None
         (Some [(KStr ''x'', [(''3@A'', Patch None None None (Some (PInt 10)) None None)])]) None)
    = Inr (VRef 0, [MapObj ''root'' True [(KStr ''x'', VPrim (PInt 10))]
                      [(KStr ''x'', [(''3@A'', VPrim (PInt 10))])]])"
    by code_simp
  have ne: "VRef 0 \<noteq> VNone" by simp
  from apply_patch_refreezes_on_return [OF run ne] run show ?thesis
    by blast
qed

text \<open>
  Counterexample to claim C3 as stated: a patch of unknown type, and a patch with a
  malformed operation id among two candidates, both raise and leave the frozen marker of
  the object false.
\<close>

theorem apply_patch_raise_leaves_unfrozen:
  "apply_patch [new_Map ''root''] (VRef 0)
      (Patch None (Some ''text'') None None (Some []) None)
     = Inl (UnknownPatchType, [MapObj ''root'' False [] []]) \<and>
   apply_patch [new_Map ''root''] (VRef 0)
      (Patch None (Some ''map'') None None
         (Some [(KStr ''x'', [(''3@A'', Patch None None None (Some (PInt 10)) None None),
                              (''bad'', Patch None None None (Some (PInt 20)) None None)])]) None)
     = Inl (MalformedIdentifier, [MapObj ''root'' False [] []])"
  by code_simp

subsection \<open>The dispatcher\<close>

text \<open>
  Claim C6, as amended. For a present container and a patch with neither \<^verbatim>\<open>props\<close> nor
  \<^verbatim>\<open>edits\<close>, \<^verbatim>\<open>apply_patch\<close> raises nothing and returns the same object; the store is the
  one before the call except that the object's frozen marker is true: same content, same
  history, no container created or reinitialised. (For an absent object the source skips
  this branch, because of \<^verbatim>\<open>not_none and ...\<close>, and raises: the counterexample below.)
\<close>

theorem apply_patch_noop:
  assumes "heap_get h a = Some ob" and "patch_props patch = None" and "patch_edits patch = None"
  shows "apply_patch h (VRef a) patch = Inr (VRef a, h[a := set_frozen_obj True ob])"
  using assms
  by (simp add: apply_patch.simps [of h "VRef a" patch] heap_get_update set_frozen_obj_twice)

theorem apply_patch_noop_witness:
  "heap_get [MapObj ''root'' False [(KStr ''x'', VPrim (PInt 10))] []] 0
     = Some (MapObj ''root'' False [(KStr ''x'', VPrim (PInt 10))] []) \<and>
   apply_patch [MapObj ''root'' False [(KStr ''x'', VPrim (PInt 10))] []] (VRef 0)
      (Patch (Some ''root'') (Some ''map'') None None None None)
    = Inr (VRef 0, [MapObj ''root'' True [(KStr ''x'', VPrim (PInt 10))] []])"
proof -
  have g: "heap_get [MapObj ''root'' False [(KStr ''x'', VPrim (PInt 10))] []] 0
     = Some (MapObj ''root'' False [(KStr ''x'', VPrim (PInt 10))] [])"
    by (simp add: heap_get_def)
  from apply_patch_noop [OF g, of "Patch (Some ''root'') (Some ''map'') None None None None"] g
  show ?thesis by simp
qed

text \<open>
  Counterexample to claim C6 as stated: with no object, a map patch that has neither
  \<^verbatim>\<open>props\<close> nor \<^verbatim>\<open>edits\<close> raises \<^verbatim>\<open>KeyError\<close> (at \<^verbatim>\<open>patch["props"]\<close>) instead of returning.
\<close>

theorem apply_patch_noop_absent_raises:
  "apply_patch [] VNone (Patch (Some ''root'') (Some ''map'') None None None None)
     = Inl (KeyError, [])"
  by code_simp

text \<open>
  Claim C10. With no existing object, \<^verbatim>\<open>apply_patch\<close> on a patch of type \<^verbatim>\<open>map\<close> or \<^verbatim>\<open>list\<close>
  that carries \<^verbatim>\<open>props\<close> or \<^verbatim>\<open>edits\<close> raises, and the store at the raise is the store of the
  call: the dispatcher has created no container.
\<close>

theorem apply_patch_none_raises:
  assumes "patch_type patch = Some ''map'' \<or> patch_type patch = Some ''list''"
    and "patch_props patch \<noteq> None \<or> patch_edits patch \<noteq> None"
  shows "\<exists>e. apply_patch h VNone patch = Inl (e, h) \<and> (e = AttributeError \<or> e = KeyError)"
  using assms
  by (auto simp: apply_patch.simps [of h VNone patch] apply_properties.simps [of h VNone]
      update_list_obj.simps [of h VNone] split: option.splits)

theorem apply_patch_none_raises_witness:
  "\<exists>e. apply_patch [] VNone (Patch (Some ''root'') (Some ''map'') None None (Some []) None)
        = Inl (e, []) \<and> (e = AttributeError \<or> e = KeyError)"
  using apply_patch_none_raises
    [of "Patch (Some ''root'') (Some ''map'') None None (Some []) None" "[]"]
  by simp

text \<open>
  Claim C9. No failure other than \<^verbatim>\<open>MalformedIdentifier\<close> and \<^verbatim>\<open>UnknownPatchType\<close> is to
  escape, in particular not when the stored candidate of an operation id is a primitive
  and the new sub-patch of that id carries an \<^verbatim>\<open>objectId\<close>. There \<^verbatim>\<open>get_value\<close> evaluates
  \<^verbatim>\<open>conflict.object_id\<close> on the integer \<^verbatim>\<open>10\<close>, and \<^verbatim>\<open>AttributeError\<close> escapes.
\<close>

theorem stored_primitive_raises_attribute_error:
  "apply_patch
     [MapObj ''root'' True [(KStr ''x'', VPrim (PInt 10))]
        [(KStr ''x'', [(''3@A'', VPrim (PInt 10))])]]
     (VRef 0)
     (Patch (Some ''root'') (Some ''map'') None None
        (Some [(KStr ''x'',
           [(''3@A'', Patch (Some ''o1'') (Some ''map'') None None (Some []) None)])]) None)
   = Inl (AttributeError,
       [MapObj ''root'' False [(KStr ''x'', VPrim (PInt 10))]
          [(KStr ''x'', [(''3@A'', VPrim (PInt 10))])]])"
  by code_simp

subsection \<open>The materializer\<close>

text \<open>
  With the same \<^verbatim>\<open>objectId\<close> the existing container itself is handed to \<^verbatim>\<open>apply_patch\<close>,
  which mutates it in the store and returns it (\<open>apply_patch_Inr\<close>); with another
  \<^verbatim>\<open>objectId\<close> and a non-empty existing container, a container is allocated and the
  existing one is left alone.
\<close>

lemma get_value_same_object_id:
  assumes "patch_objectId patch = Some oid" and "heap_get h a = Some ob"
    and "object_id ob = oid"
  shows "get_value h (VRef a) patch = apply_patch h (VRef a) patch"
  using assms by (simp add: get_value.simps [of h "VRef a" patch])

lemma get_value_other_object_id:
  assumes "patch_objectId patch = Some oid" and "heap_get h a = Some ob"
    and "object_id ob \<noteq> oid" and "truthy_obj ob"
  shows "patch_type patch = Some ''map'' \<Longrightarrow>
           get_value h (VRef a) patch = apply_patch (h @ [new_Map oid]) (VRef (length h)) patch"
    and "patch_type patch = Some ''list'' \<Longrightarrow>
           get_value h (VRef a) patch = apply_patch (h @ [new_List oid]) (VRef (length h)) patch"
  using assms by (simp_all add: get_value.simps [of h "VRef a" patch] alloc_def)

text \<open>
  Claim C4. A sub-patch whose \<^verbatim>\<open>objectId\<close> differs from that of the existing entry is to
  start from a fresh empty container carrying the sub-patch's \<^verbatim>\<open>objectId\<close>. The test
  \<^verbatim>\<open>conflict and ...\<close> is false for an empty container, so an existing empty \<^verbatim>\<open>Map\<close> with
  \<^verbatim>\<open>objectId\<close> \<^verbatim>\<open>o1\<close> is kept for a sub-patch with \<^verbatim>\<open>objectId\<close> \<^verbatim>\<open>o2\<close>: the result is the old
  container, still called \<^verbatim>\<open>o1\<close>, and no container is created.
\<close>

theorem get_value_reuses_empty_container:
  "get_value [MapObj ''o1'' True [] []] (VRef 0)
     (Patch (Some ''o2'') (Some ''map'') None None
        (Some [(KStr ''y'', [(''2@A'', Patch None None None (Some (PInt 5)) None None)])]) None)
   = Inr (VRef 0,
       [MapObj ''o1'' True [(KStr ''y'', VPrim (PInt 5))]
          [(KStr ''y'', [(''2@A'', VPrim (PInt 5))])]])"
  by code_simp

subsection \<open>Lists\<close>

lemma py_index_Some: "py_index n i = Some m \<Longrightarrow> m < n"
  by (auto simp: py_index_def split: if_splits)

text \<open>
  The edits keep the three sequences of a list in lock-step.
\<close>

lemma length_list_insert: "length (list_insert xs i v) = Suc (length xs)"
  by (simp add: list_insert_def Let_def)

lemma length_list_delitem: "list_delitem xs i = Inr ys \<Longrightarrow> Suc (length ys) = length xs"
  by (auto simp: list_delitem_def split: option.splits dest!: py_index_Some)

lemma apply_edit_lock_step:
  assumes "lock_step ob" and "apply_edit ob e = Inr ob'"
  shows "lock_step ob'"
proof (cases ob)
  case (MapObj oid f es ro)
  with assms show ?thesis by simp
next
  case (ListObj oid f vs ids ro)
  with assms show ?thesis
    by (auto simp: Let_def length_list_insert split: if_splits option.splits sum.splits
        dest!: length_list_delitem)
qed

lemma apply_edits_lock_step:
  assumes "lock_step ob" and "apply_edits ob es = Inr ob'"
  shows "lock_step ob'"
  using assms
  by (induction es arbitrary: ob) (auto split: sum.splits dest: apply_edit_lock_step)

text \<open>
  Claim C2. The three sequences of a list are to have the same length when
  \<^verbatim>\<open>apply_patch\<close> returns, also for a \<^verbatim>\<open>props\<close> entry with an empty conflict set. For such an
  entry the source deletes the position from the values and from the history and not
  from \<^verbatim>\<open>elem_ids\<close>: a list of one element comes back with no value, no history entry and
  one element id.
\<close>

theorem empty_conflict_set_breaks_lock_step:
  "apply_patch
     [ListObj ''l'' True [VPrim (PStr ''hello'')] [''1@A'']
        [Some [(''1@A'', VPrim (PStr ''hello''))]]]
     (VRef 0)
     (Patch (Some ''l'') (Some ''list'') None None (Some [(KInt 0, [])]) (Some []))
   = Inr (VRef 0, [ListObj ''l'' True [] [''1@A''] []]) \<and>
   lock_step (ListObj ''l'' True [VPrim (PStr ''hello'')] [''1@A'']
        [Some [(''1@A'', VPrim (PStr ''hello''))]]) \<and>
   \<not> lock_step (ListObj ''l'' True [] [''1@A''] [])"
  by code_simp

subsection \<open>Writing and reading a slot\<close>

lemma list_setitem_Inr:
  assumes "list_setitem xs i v = Inr xs'"
  shows "\<exists>n. py_index (length xs) i = Some n \<and> n < length xs \<and> xs' = xs[n := v]"
  using assms by (auto simp: list_setitem_def py_index_Some split: option.splits)




lemma props_loop_append:
  "props_loop h a (ps @ qs) =
     (case props_loop h a ps of Inl eh \<Rightarrow> Inl eh | Inr h0 \<Rightarrow> props_loop h0 a qs)"
proof (induction ps arbitrary: h)
  case Nil
  show ?case by simp
next
  case (Cons p ps)
  obtain k cs where "p = (k, cs)" by (cases p)
  with Cons show ?case
    by (simp split: sum.splits prod.splits)
qed

subsection \<open>The store invariant\<close>

text \<open>
  Every function of the module keeps a well-formed store well-formed, and a call on the
  container at address \<open>b\<close> leaves the store below \<open>b\<close> as it was: a container is written
  only by calls on itself and on the containers above it.
\<close>

lemma ordered_iff: "ordered h \<longleftrightarrow> (\<forall>a < length h. obj_ordered a (h ! a))"
  by (auto simp: ordered_def list_all_iff)

lemma frame_refl: "frame n h h"
  by (simp add: frame_def)

lemma frame_trans: "frame n h h1 \<Longrightarrow> frame m h1 h2 \<Longrightarrow> n \<le> m \<Longrightarrow> frame n h h2"
  unfolding frame_def
  by (metis le_trans min.absorb2 take_take min.commute)

lemma frame_mono: "frame m h h' \<Longrightarrow> n \<le> m \<Longrightarrow> frame n h h'"
  using frame_trans [OF frame_refl] by blast

lemma frame_update: "frame a h (h[a := ob])"
  by (simp add: frame_def)

lemma frame_append: "frame (length h) h (h @ xs)"
  by (simp add: frame_def)

lemma frame_heap_get: "frame (Suc a) h h' \<Longrightarrow> heap_get h a = Some ob \<Longrightarrow> heap_get h' a = Some ob"
  unfolding frame_def heap_get_def
  by (metis Suc_le_eq le_trans lessI not_less nth_take option.distinct(1) option.inject)

lemma frame_length: "frame n h h' \<Longrightarrow> a < length h \<Longrightarrow> a < length h'"
  by (simp add: frame_def)

lemma ordered_update: "ordered h \<Longrightarrow> obj_ordered a ob \<Longrightarrow> ordered (h[a := ob])"
  unfolding ordered_iff
  by (metis length_list_update nth_list_update_eq nth_list_update_neq)

lemma ordered_append_Map: "ordered h \<Longrightarrow> ordered (h @ [new_Map oid])"
  by (auto simp: ordered_iff nth_append new_Map_def less_Suc_eq)

lemma ordered_append_List: "ordered h \<Longrightarrow> ordered (h @ [new_List oid])"
  by (auto simp: ordered_iff nth_append new_List_def less_Suc_eq)

lemma ordered_heap_get: "ordered h \<Longrightarrow> heap_get h a = Some ob \<Longrightarrow> obj_ordered a ob"
  by (auto simp: ordered_iff heap_get_def split: if_splits)

lemma heap_get_length: "heap_get h a = Some ob \<Longrightarrow> a < length h"
  by (auto simp: heap_get_def split: if_splits)

lemma obj_ordered_set_frozen: "obj_ordered a (set_frozen_obj b ob) = obj_ordered a ob"
  by (cases ob) simp_all

lemma val_ge_above: "val_ge n v \<Longrightarrow> a < n \<Longrightarrow> val_above a v"
  by (cases v) simp_all

lemma list_all_update:
  "list_all (\<lambda>e. P (snd e)) al \<Longrightarrow> P v \<Longrightarrow> list_all (\<lambda>e. P (snd e)) (AList.update k v al)"
  by (induction al) auto

lemma list_all_delete:
  "list_all P al \<Longrightarrow> list_all P (AList.delete k al)"
  by (induction al) auto

lemma list_all_list_update: "list_all P xs \<Longrightarrow> P v \<Longrightarrow> list_all P (xs[n := v])"
  by (metis (full_types) insert_iff list_all_iff set_update_subset_insert subsetD)

lemma list_all_take_drop: "list_all P xs \<Longrightarrow> list_all P (take n xs @ drop m xs)"
  by (auto simp: list_all_iff dest: in_set_takeD in_set_dropD)

lemma list_all_list_insert: "list_all P xs \<Longrightarrow> P v \<Longrightarrow> list_all P (list_insert xs i v)"
  by (auto simp: list_insert_def Let_def list_all_iff dest: in_set_takeD in_set_dropD)

lemma list_all_list_delitem:
  assumes "list_all P xs" and "list_delitem xs i = Inr ys"
  shows "list_all P ys"
proof -
  from assms(2) obtain n where "ys = take n xs @ drop (Suc n) xs"
    by (auto simp: list_delitem_def split: option.splits)
  with assms(1) show ?thesis
    by (simp only: list_all_take_drop)
qed

lemma list_all_list_setitem:
  "list_all P xs \<Longrightarrow> P v \<Longrightarrow> list_setitem xs i v = Inr ys \<Longrightarrow> list_all P ys"
  by (auto simp: list_setitem_def list_all_list_update split: option.splits)

lemma obj_ordered_del_item: "obj_ordered a ob \<Longrightarrow> del_item ob k = Inr ob' \<Longrightarrow> obj_ordered a ob'"
  by (cases ob; cases k)
    (auto simp: dict_delitem_def list_all_delete split: sum.splits option.splits
      dest: list_all_list_delitem)

lemma obj_ordered_del_recent:
  "obj_ordered a ob \<Longrightarrow> del_recent ob k = Inr ob' \<Longrightarrow> obj_ordered a ob'"
  by (cases ob; cases k)
    (auto simp: dict_delitem_def list_all_delete split: sum.splits option.splits
      dest: list_all_list_delitem)

lemma obj_ordered_set_item:
  "obj_ordered a ob \<Longrightarrow> val_above a v \<Longrightarrow> set_item ob k v = Inr ob' \<Longrightarrow> obj_ordered a ob'"
  by (cases ob; cases k)
    (auto simp: dict_setitem_def list_all_update split: sum.splits
      dest: list_all_list_setitem)

lemma obj_ordered_set_recent:
  "obj_ordered a ob \<Longrightarrow> conflicts_above a d \<Longrightarrow> set_recent ob k d = Inr ob' \<Longrightarrow>
     obj_ordered a ob'"
  by (cases ob; cases k)
    (auto simp: dict_setitem_def list_all_update split: sum.splits
      dest: list_all_list_setitem [where v = "Some d"])

lemma set_frozen_ordered:
  assumes "ordered h" and "set_frozen h obj b = Inr h'"
  shows "ordered h' \<and> (\<exists>a. obj = VRef a \<and> a < length h \<and> frame a h h')"
proof -
  from set_frozen_Inr [OF assms(2)] obtain a ob where
    *: "obj = VRef a" "heap_get h a = Some ob" "h' = h[a := set_frozen_obj b ob]"
    by blast
  with assms(1) show ?thesis
    by (auto simp: frame_update heap_get_length obj_ordered_set_frozen
        intro!: ordered_update dest: ordered_heap_get)
qed

lemma apply_patch_None: "apply_patch h VNone patch = Inr x \<Longrightarrow> False"
  by (auto simp: apply_patch.simps [of h VNone patch] apply_properties.simps [of h VNone]
      update_list_obj.simps [of h VNone] split: option.splits if_splits)

lemma conflicts_above_lookup:
  "conflicts_above a d \<Longrightarrow> map_of d i = Some v \<Longrightarrow> val_above a v"
  by (auto simp: conflicts_above_def list_all_iff dest!: map_of_SomeD)

lemma conflicts_above_setitem:
  "conflicts_above a d \<Longrightarrow> val_above a v \<Longrightarrow> conflicts_above a (dict_setitem d i v)"
  by (simp add: conflicts_above_def dict_setitem_def list_all_update)

lemma stored_candidate_above:
  assumes "obj_ordered a ob" and "stored_candidate ob k i = Inr (Some old)"
  shows "val_above a old"
proof -
  have "\<exists>d. conflicts_above a d \<and> map_of d i = Some old"
  proof (cases ob)
    case (MapObj oid f es ro)
    with assms(2) obtain d where d: "map_of ro k = Some d" "map_of d i = Some old"
      by (auto split: option.splits)
    from d(1) have "(k, d) \<in> set ro" by (rule map_of_SomeD)
    with assms(1) MapObj have "conflicts_above a d"
      by (auto simp: list_all_iff)
    with d(2) show ?thesis by blast
  next
    case (ListObj oid f vs ids ro)
    with assms(2) obtain j n d where
      d: "k = KInt j" "py_index (length ro) j = Some n" "ro ! n = Some d" "map_of d i = Some old"
      by (cases k) (auto split: option.splits if_splits)
    from d(2) have "n < length ro" by (rule py_index_Some)
    with d(3) have "Some d \<in> set ro" by (metis nth_mem)
    with assms(1) ListObj have "conflicts_above a d"
      by (auto simp: list_all_iff)
    with d(4) show ?thesis by blast
  qed
  then show ?thesis
    by (auto intro: conflicts_above_lookup)
qed

lemma candidate_conflict_ordered:
  assumes "ordered h" and "heap_get h a = Some ob"
    and "candidate_conflict h ob k i sp = Inr (c, hc)"
  shows "ordered hc \<and> frame (length h) h hc \<and> a < lo hc c"
proof -
  have a: "a < length h" using assms(2) by (rule heap_get_length)
  from assms(1,2) have oo: "obj_ordered a ob" by (rule ordered_heap_get)
  show ?thesis
  proof (cases "stored_candidate ob k i")
    case (Inl e)
    with assms(3) show ?thesis by simp
  next
    case (Inr x)
    show ?thesis
    proof (cases x)
      case (Some old)
      with Inr assms(3) have "c = old" "hc = h" by auto
      moreover from stored_candidate_above [OF oo] Inr Some have "val_above a old" by simp
      ultimately show ?thesis
        using assms(1) a by (cases old) (auto simp: frame_refl)
    next
      case None
      with Inr assms(3) a assms(1) show ?thesis
        by (auto simp: alloc_def frame_refl frame_append ordered_append_Map ordered_append_List
            split: option.splits if_splits)
    qed
  qed
qed

lemma obj_ordered_apply_edit:
  "obj_ordered a ob \<Longrightarrow> apply_edit ob e = Inr ob' \<Longrightarrow> obj_ordered a ob'"
  by (cases ob)
    (auto simp: Let_def list_all_list_insert split: if_splits option.splits sum.splits
      dest: list_all_list_delitem)

lemma obj_ordered_apply_edits:
  "obj_ordered a ob \<Longrightarrow> apply_edits ob es = Inr ob' \<Longrightarrow> obj_ordered a ob'"
  by (induction es arbitrary: ob) (auto split: sum.splits dest: obj_ordered_apply_edit)

lemma store_slot_ordered:
  assumes "ordered h" and "conflicts_above a vals" and "store_slot h a k ids vals = Inr h'"
  shows "ordered h' \<and> frame a h h'"
proof -
  from assms(3) obtain ob where ob: "heap_get h a = Some ob"
    by (auto simp: store_slot_def split: option.splits)
  from ordered_heap_get [OF assms(1) ob] have oo: "obj_ordered a ob" .
  from assms(3) ob consider
    (del) ob1 ob2 where "del_item ob k = Inr ob1" "del_recent ob1 k = Inr ob2" "h' = h[a := ob2]"
  | (set) i v ob1 ob2 where "map_of vals i = Some v" "set_item ob k v = Inr ob1"
      "set_recent ob1 k vals = Inr ob2" "h' = h[a := ob2]"
    by (auto simp: store_slot_def split: list.splits sum.splits option.splits)
  then obtain ob2 where "h' = h[a := ob2]" and "obj_ordered a ob2"
  proof cases
    case del
    with oo that show ?thesis
      by (blast dest: obj_ordered_del_item obj_ordered_del_recent)
  next
    case set
    from conflicts_above_lookup [OF assms(2) set(1)] have "val_above a v" .
    from obj_ordered_set_item [OF oo this set(2)] have "obj_ordered a ob1" .
    from obj_ordered_set_recent [OF this assms(2) set(3)] set(4) that show ?thesis
      by blast
  qed
  with assms(1) show ?thesis
    by (simp add: ordered_update frame_update)
qed

lemma object_id_differs_True:
  "object_id_differs h c oid = Inr True \<Longrightarrow> \<exists>b ob. c = VRef b \<and> heap_get h b = Some ob"
  by (cases c) (auto split: if_splits option.splits)

lemma ordered_frame:
  shows "ordered h \<Longrightarrow> apply_patch h obj patch = Inr (r, h') \<Longrightarrow>
           ordered h' \<and> r = obj \<and> (\<exists>b. obj = VRef b \<and> b < length h \<and> frame b h h')"
    and "ordered h \<Longrightarrow> get_value h conflict patch = Inr (v, h') \<Longrightarrow>
           ordered h' \<and> frame (lo h conflict) h h' \<and> val_ge (lo h conflict) v"
    and "ordered h \<Longrightarrow> apply_properties h obj props = Inr h' \<Longrightarrow>
           ordered h' \<and> (\<exists>b. obj = VRef b \<and> b < length h \<and> frame b h h')"
    and "ordered h \<Longrightarrow> a < length h \<Longrightarrow> props_loop h a props = Inr h' \<Longrightarrow>
           ordered h' \<and> frame a h h'"
    and "ordered h \<Longrightarrow> a < length h \<Longrightarrow> conflicts_above a vals \<Longrightarrow>
         cands_loop h a k cs vals = Inr (vals', h') \<Longrightarrow>
           ordered h' \<and> frame (Suc a) h h' \<and> conflicts_above a vals'"
    and "ordered h \<Longrightarrow> update_list_obj h listobj props edits = Inr h' \<Longrightarrow>
           ordered h' \<and> (\<exists>b. listobj = VRef b \<and> b < length h \<and> frame b h h')"
proof (induction h obj patch and h conflict patch and h obj props and h a props
    and h a k cs vals and h listobj props edits
    arbitrary: r h' and v h' and h' and h' and vals' h' and h'
    rule: apply_patch_get_value_apply_properties_props_loop_cands_loop_update_list_obj.induct)
  case (1 h obj patch)
  from "1.prems"(2) have nn: "obj \<noteq> VNone"
    by (auto dest: apply_patch_None)
  from apply_patch_Inr [OF "1.prems"(2) nn] obtain hz where
    r: "r = obj" and fz: "set_frozen hz obj True = Inr h'" by blast
  from set_frozen_Inr [OF fz] obtain b where b: "obj = VRef b" by blast
  show ?case
  proof (cases "set_frozen h obj False")
    case (Inl e)
    with "1.prems"(2) nn show ?thesis
      by (simp add: apply_patch.simps [of h obj patch])
  next
    case (Inr h1)
    from set_frozen_ordered [OF "1.prems"(1) Inr] b
    have o1: "ordered h1" and bl: "b < length h" and f1: "frame b h h1"
      by auto
    show ?thesis
    proof (cases "patch_props patch = None \<and> patch_edits patch = None")
      case True
      with "1.prems"(2) nn Inr have "set_frozen h1 obj True = Inr h'"
        by (auto simp: apply_patch.simps [of h obj patch] dest!: refreeze_InrD)
      from set_frozen_ordered [OF o1 this] b r bl f1 show ?thesis
        by (auto intro: frame_trans)
    next
      case False
      from "1.prems"(2) nn Inr False obtain t h2 where
        t: "patch_type patch = Some t" and
        body: "(t = ''map'' \<and> (\<exists>ps. patch_props patch = Some ps \<and>
                  apply_properties h1 obj ps = Inr h2)) \<or>
               (t \<noteq> ''map'' \<and> t = ''list'' \<and> (\<exists>ps es. patch_props patch = Some ps \<and>
                  patch_edits patch = Some es \<and> update_list_obj h1 obj ps es = Inr h2))" and
        fin: "set_frozen h2 obj True = Inr h'"
        by (simp add: apply_patch.simps [of h obj patch] split: option.splits)
          (auto dest!: sum_case_InrD refreeze_InrD split: if_splits option.splits)
      have c1: "(if obj \<noteq> VNone then set_frozen h obj False else Inr h) = Inr h1"
        using nn Inr by simp
      have c2: "\<not> (obj \<noteq> VNone \<and> patch_props patch = None \<and> patch_edits patch = None)"
        using False by simp
      from body have "ordered h2 \<and> frame b h1 h2"
      proof
        assume m: "t = ''map'' \<and> (\<exists>ps. patch_props patch = Some ps \<and>
                  apply_properties h1 obj ps = Inr h2)"
        then obtain ps where ps: "patch_props patch = Some ps"
          "apply_properties h1 obj ps = Inr h2" by blast
        from m have tm: "t = ''map''" by simp
        from "1.IH"(1) [OF refl c1 c2 t tm ps(1) o1 ps(2)] b show ?thesis
          by auto
      next
        assume l: "t \<noteq> ''map'' \<and> t = ''list'' \<and> (\<exists>ps es. patch_props patch = Some ps \<and>
                  patch_edits patch = Some es \<and> update_list_obj h1 obj ps es = Inr h2)"
        then obtain ps es where ps: "patch_props patch = Some ps" "patch_edits patch = Some es"
          "update_list_obj h1 obj ps es = Inr h2" by blast
        from l have tl: "t \<noteq> ''map''" "t = ''list''" by simp_all
        from "1.IH"(2) [OF refl c1 c2 t tl ps(1,2) o1 ps(3)] b show ?thesis
          by auto
      qed
      then have o2: "ordered h2" and f2: "frame b h1 h2" by auto
      from set_frozen_ordered [OF o2 fin] b have "ordered h'" "frame b h2 h'"
        by auto
      with f1 f2 r b bl show ?thesis
        by (auto intro: frame_trans)
    qed
  qed
next
  case (2 h conflict patch)
  show ?case
  proof (cases "patch_objectId patch")
    case None
    with "2.prems"(2) have "h' = h" and "val_ge (lo h conflict) v"
      by (auto simp: get_value.simps [of h conflict patch] split: option.splits)
    with "2.prems"(1) show ?thesis
      by (simp add: frame_refl)
  next
    case (Some oid)
    show ?thesis
    proof (cases "object_id_differs h conflict oid")
      case (Inl e)
      with "2.prems"(2) Some show ?thesis
        by (simp add: get_value.simps [of h conflict patch])
    next
      case (Inr d)
      show ?thesis
      proof (cases d)
        case False
        with "2.prems"(2) Some Inr have ap: "apply_patch h conflict patch = Inr (v, h')"
          by (simp add: get_value.simps [of h conflict patch])
        from False have df: "d = False" by simp
        from "2.IH"(3) [OF Some Inr df "2.prems"(1) ap] show ?thesis
          by (auto simp: min_def)
      next
        case True
        from True have dt: "d = True" by simp
        from Inr True obtain b ob where c: "conflict = VRef b" and "heap_get h b = Some ob"
          by (auto dest: object_id_differs_True)
        then have bl: "b < length h" by (auto dest: heap_get_length)
        from "2.prems"(2) Some Inr True obtain t where t: "patch_type patch = Some t"
          by (auto simp: get_value.simps [of h conflict patch] split: option.splits)
        let ?n = "length h"
        have "\<exists>new. ordered (h @ [new]) \<and> ordered h' \<and> v = VRef ?n \<and>
                frame ?n (h @ [new]) h'"
        proof (cases "t = ''map''")
          case True
          with "2.prems"(2) Some Inr dt t
          have ap: "apply_patch (h @ [new_Map oid]) (VRef ?n) patch = Inr (v, h')"
            by (simp add: get_value.simps [of h conflict patch] alloc_def)
          have al: "(?n, h @ [new_Map oid]) = alloc h (new_Map oid)"
            by (simp add: alloc_def)
          have o: "ordered (h @ [new_Map oid])"
            using "2.prems"(1) by (rule ordered_append_Map)
          from "2.IH"(1) [OF Some Inr dt t True refl al o ap] o show ?thesis
            by auto
        next
          case False
          with "2.prems"(2) Some Inr dt t have tl: "t = ''list''"
            by (auto simp: get_value.simps [of h conflict patch] split: if_splits)
          with "2.prems"(2) Some Inr dt t False
          have ap: "apply_patch (h @ [new_List oid]) (VRef ?n) patch = Inr (v, h')"
            by (simp add: get_value.simps [of h conflict patch] alloc_def)
          have al: "(?n, h @ [new_List oid]) = alloc h (new_List oid)"
            by (simp add: alloc_def)
          have o: "ordered (h @ [new_List oid])"
            using "2.prems"(1) by (rule ordered_append_List)
          from "2.IH"(2) [OF Some Inr dt t False tl refl al o ap] o show ?thesis
            by auto
        qed
        then obtain new where o': "ordered h'" and v: "v = VRef ?n"
          and f: "frame ?n (h @ [new]) h'"
          by blast
        have "frame b h (h @ [new])"
          using frame_append [of h "[new]"] bl by (auto intro: frame_mono)
        from frame_trans [OF this f] bl have "frame b h h'" by simp
        with o' v c bl show ?thesis
          by (simp add: min_def)
      qed
    qed
  qed
next
  case (3 h obj props)
  from "3.prems"(2) obtain a ob where a: "obj = VRef a" "heap_get h a = Some ob"
    and loop: "props_loop h a props = Inr h'"
    by (auto simp: apply_properties.simps [of h obj props] split: val.splits option.splits)
  from a(2) have al: "a < length h" by (rule heap_get_length)
  from "3.IH" [OF a "3.prems"(1) al loop] a(1) al show ?case
    by simp
next
  case (4 h a)
  then show ?case by (simp add: frame_refl)
next
  case (5 h a k patch_recent_ops props)
  from "5.prems"(3) obtain srt vals hn h2 where
    srt: "lamport_sort patch_recent_ops = Inr srt" and
    cl: "cands_loop h a k (rev srt) [] = Inr (vals, hn)" and
    st: "store_slot hn a k (rev srt) vals = Inr h2" and
    rest: "props_loop h2 a props = Inr h'"
    by (auto split: sum.splits prod.splits)
  have e: "conflicts_above a []" by (simp add: conflicts_above_def)
  from "5.IH"(1) [OF srt "5.prems"(1,2) e cl]
  have on: "ordered hn" and fn: "frame (Suc a) h hn" and vn: "conflicts_above a vals"
    by auto
  from store_slot_ordered [OF on vn st] have o2: "ordered h2" and f2: "frame a hn h2"
    by auto
  from fn f2 "5.prems"(2) have a2: "a < length h2"
    by (auto dest: frame_length)
  from "5.IH"(2) [OF srt cl refl st o2 a2 rest] have "ordered h'" "frame a h2 h'"
    by auto
  moreover from fn have "frame a h hn" by (auto intro: frame_mono)
  ultimately show ?case
    using f2 by (auto intro: frame_trans)
next
  case (6 h a k "values")
  then show ?case by (simp add: frame_refl)
next
  case (7 h a k patch_op_id subpatch rest "values")
  from "7.prems"(4) obtain ob c hc v h1 where
    ob: "heap_get h a = Some ob" and
    cc: "candidate_conflict h ob k patch_op_id subpatch = Inr (c, hc)" and
    gv: "get_value hc c subpatch = Inr (v, h1)" and
    rec: "cands_loop h1 a k rest (dict_setitem values patch_op_id v) = Inr (vals', h')"
    by (auto split: option.splits sum.splits prod.splits)
  from candidate_conflict_ordered [OF "7.prems"(1) ob cc]
  have oc: "ordered hc" and fc: "frame (length h) h hc" and lo: "a < lo hc c"
    by auto
  from "7.IH"(1) [OF ob cc refl oc gv]
  have o1: "ordered h1" and f1: "frame (lo hc c) hc h1" and vg: "val_ge (lo hc c) v"
    by auto
  from vg lo have va: "val_above a v" by (rule val_ge_above)
  from fc "7.prems"(2) have "frame (Suc a) h hc" by (auto intro: frame_mono)
  from frame_trans [OF this f1] lo have fs: "frame (Suc a) h h1" by simp
  with "7.prems"(2) have a1: "a < length h1" by (auto dest: frame_length)
  from conflicts_above_setitem [OF "7.prems"(3) va]
  have ca: "conflicts_above a (dict_setitem values patch_op_id v)" .
  from "7.IH"(2) [OF ob cc refl gv refl o1 a1 ca rec] fs show ?case
    by (auto intro: frame_trans)
next
  case (8 h listobj props edits)
  from "8.prems"(2) obtain a oid f vs ids ro ob' where
    l: "listobj = VRef a" and ob: "heap_get h a = Some (ListObj oid f vs ids ro)" and
    ed: "apply_edits (ListObj oid f vs ids ro) edits = Inr ob'" and
    ap: "apply_properties (h[a := ob']) listobj props = Inr h'"
    by (auto simp: update_list_obj.simps [of h listobj props edits]
        split: val.splits option.splits obj.splits sum.splits prod.splits)
  from ordered_heap_get [OF "8.prems"(1) ob] have "obj_ordered a (ListObj oid f vs ids ro)" .
  from obj_ordered_apply_edits [OF this ed] have "obj_ordered a ob'" .
  with "8.prems"(1) have o: "ordered (h[a := ob'])" by (rule ordered_update)
  from "8.IH" [OF l ob refl ed o ap] l have "ordered h'" "a < length h" "frame a (h[a := ob']) h'"
    by auto
  with frame_update [of a h ob'] l show ?case
    by (auto intro: frame_trans)
qed

subsection \<open>The merger: candidates, winner and history\<close>





lemma py_index_nonneg: "0 \<le> i \<Longrightarrow> py_index n i = Some m \<Longrightarrow> m = nat i"
  by (auto simp: py_index_def split: if_splits)

lemma list_setitem_other:
  assumes "list_setitem xs j v = Inr xs'" and "0 \<le> i" and "0 \<le> j" and "i \<noteq> j"
  shows "length xs' = length xs \<and> (\<forall>m. py_index (length xs) i = Some m \<longrightarrow> xs' ! m = xs ! m)"
proof -
  from list_setitem_Inr [OF assms(1)] obtain n where
    n: "py_index (length xs) j = Some n" "xs' = xs[n := v]" by blast
  from py_index_nonneg [OF assms(3) n(1)] have nj: "n = nat j" .
  have "xs' ! m = xs ! m" if "py_index (length xs) i = Some m" for m
  proof -
    from py_index_nonneg [OF assms(2) that] have "m = nat i" .
    with nj assms(2-4) have "m \<noteq> n" by simp
    with n(2) show ?thesis by simp
  qed
  with n(2) show ?thesis by simp
qed

lemma set_item_other:
  assumes "set_item ob k' v = Inr ob1" and "k \<noteq> k'"
    and "is_map ob \<or> (index_key k \<and> index_key k')"
  shows "get_item ob1 k = get_item ob k \<and> get_recent ob1 k = get_recent ob k \<and>
         is_map ob1 = is_map ob"
proof (cases ob)
  case (MapObj oid f es ro)
  with assms show ?thesis
    by (auto simp: dict_setitem_def update_conv')
next
  case (ListObj oid f vs ids ro)
  with assms show ?thesis
    by (cases k; cases k')
      (auto split: sum.splits option.splits dest!: list_setitem_other)
qed

lemma set_recent_other:
  assumes "set_recent ob k' d = Inr ob1" and "k \<noteq> k'"
    and "is_map ob \<or> (index_key k \<and> index_key k')"
  shows "get_item ob1 k = get_item ob k \<and> get_recent ob1 k = get_recent ob k \<and>
         is_map ob1 = is_map ob"
proof (cases ob)
  case (MapObj oid f es ro)
  with assms show ?thesis
    by (auto simp: dict_setitem_def update_conv')
next
  case (ListObj oid f vs ids ro)
  with assms show ?thesis
    by (cases k; cases k')
      (auto split: sum.splits option.splits dest!: list_setitem_other)
qed

lemma del_item_other:
  assumes "del_item ob k' = Inr ob1" and "k \<noteq> k'" and "is_map ob"
  shows "get_item ob1 k = get_item ob k \<and> get_recent ob1 k = get_recent ob k \<and> is_map ob1"
  using assms
  by (cases ob) (auto simp: dict_delitem_def delete_conv' split: option.splits sum.splits)

lemma del_recent_other:
  assumes "del_recent ob k' = Inr ob1" and "k \<noteq> k'" and "is_map ob"
  shows "get_item ob1 k = get_item ob k \<and> get_recent ob1 k = get_recent ob k \<and> is_map ob1"
  using assms
  by (cases ob) (auto simp: dict_delitem_def delete_conv' split: option.splits sum.splits)

lemma kind_kept:
  "del_item ob k = Inr ob1 \<Longrightarrow> is_map ob1 = is_map ob"
  "del_recent ob k = Inr ob1 \<Longrightarrow> is_map ob1 = is_map ob"
  "set_item ob k v = Inr ob1 \<Longrightarrow> is_map ob1 = is_map ob"
  "set_recent ob k d = Inr ob1 \<Longrightarrow> is_map ob1 = is_map ob"
  by (cases ob; cases k; auto split: sum.splits)+

lemma store_slot_cases:
  assumes "store_slot h a k ids vals = Inr h'" and "heap_get h a = Some ob"
  obtains (del) ob1 ob2 where "ids = []" "del_item ob k = Inr ob1" "del_recent ob1 k = Inr ob2"
      "h' = h[a := ob2]"
  | (set) i v ob1 ob2 where "ids \<noteq> []" "map_of vals i = Some v" "set_item ob k v = Inr ob1"
      "set_recent ob1 k vals = Inr ob2" "h' = h[a := ob2]"
  using assms
  by (auto simp: store_slot_def split: list.splits sum.splits option.splits)

lemma store_slot_kind:
  assumes "store_slot h a k ids vals = Inr h'" and "heap_get h a = Some ob"
  shows "\<exists>ob'. heap_get h' a = Some ob' \<and> is_map ob' = is_map ob"
  using assms(1,2)
proof (cases rule: store_slot_cases)
  case del
  with kind_kept(1,2) heap_get_update [OF assms(2)] show ?thesis
    by metis
next
  case set
  with kind_kept(3,4) heap_get_update [OF assms(2)] show ?thesis
    by metis
qed

lemma store_slot_other:
  assumes "store_slot h a k' ids vals = Inr h'" and "heap_get h a = Some ob" and "k \<noteq> k'"
    and "is_map ob \<or> (index_key k \<and> index_key k' \<and> ids \<noteq> [])"
  shows "\<exists>ob'. heap_get h' a = Some ob' \<and> get_item ob' k = get_item ob k \<and>
           get_recent ob' k = get_recent ob k \<and> is_map ob' = is_map ob"
  using assms(1,2)
proof (cases rule: store_slot_cases)
  case (del ob1 ob2)
  with assms(4) have m: "is_map ob" by simp
  from del_item_other [OF del(2) assms(3) m]
  have 1: "get_item ob1 k = get_item ob k" "get_recent ob1 k = get_recent ob k" "is_map ob1"
    by simp_all
  from del_recent_other [OF del(3) assms(3) 1(3)] 1 m del(4) heap_get_update [OF assms(2)]
  show ?thesis by simp
next
  case (set i v ob1 ob2)
  from assms(4) have c: "is_map ob \<or> (index_key k \<and> index_key k')" by blast
  from set_item_other [OF set(3) assms(3) c]
  have 1: "get_item ob1 k = get_item ob k" "get_recent ob1 k = get_recent ob k"
    "is_map ob1 = is_map ob"
    by simp_all
  with c have "is_map ob1 \<or> (index_key k \<and> index_key k')" by simp
  from set_recent_other [OF set(4) assms(3) this] 1 set(5) heap_get_update [OF assms(2)]
  show ?thesis by simp
qed

lemma lamport_sort_nonempty: "lamport_sort cs = Inr srt \<Longrightarrow> cs \<noteq> [] \<Longrightarrow> srt \<noteq> []"
  by (auto dest!: lamport_sort_mset)

lemma props_loop_kind:
  assumes "props_loop h a ps = Inr h'" and "ordered h" and "heap_get h a = Some ob"
  shows "\<exists>ob'. heap_get h' a = Some ob' \<and> is_map ob' = is_map ob"
  using assms
proof (induction ps arbitrary: h ob)
  case Nil
  then show ?case by simp
next
  case (Cons p ps)
  obtain k cs where p: "p = (k, cs)" by (cases p)
  from Cons.prems(1) p obtain srt vals hn h2 where
    srt: "lamport_sort cs = Inr srt" and
    cl: "cands_loop h a k (rev srt) [] = Inr (vals, hn)" and
    st: "store_slot hn a k (rev srt) vals = Inr h2" and
    rest: "props_loop h2 a ps = Inr h'"
    by (auto split: sum.splits prod.splits)
  have al: "a < length h" using Cons.prems(3) by (rule heap_get_length)
  have e: "conflicts_above a []" by (simp add: conflicts_above_def)
  from ordered_frame(5) [OF Cons.prems(2) al e cl]
  have on: "ordered hn" and fn: "frame (Suc a) h hn" and vn: "conflicts_above a vals"
    by auto
  from frame_heap_get [OF fn Cons.prems(3)] have gn: "heap_get hn a = Some ob" .
  from store_slot_kind [OF st gn] obtain ob2 where
    g2: "heap_get h2 a = Some ob2" "is_map ob2 = is_map ob" by blast
  from store_slot_ordered [OF on vn st] have o2: "ordered h2" by simp
  from Cons.IH [OF rest o2 g2(1)] g2(2) show ?case by simp
qed

lemma props_loop_slot:
  assumes "props_loop h a qs = Inr h'" and "ordered h" and "heap_get h a = Some ob"
    and "k \<notin> fst ` set qs"
    and "is_map ob \<or> (index_key k \<and> (\<forall>q \<in> set qs. index_key (fst q) \<and> snd q \<noteq> []))"
  shows "\<exists>ob'. heap_get h' a = Some ob' \<and> get_item ob' k = get_item ob k \<and>
           get_recent ob' k = get_recent ob k"
  using assms
proof (induction qs arbitrary: h ob)
  case Nil
  then show ?case by simp
next
  case (Cons q qs)
  obtain k' cs where q: "q = (k', cs)" by (cases q)
  from Cons.prems(1) q obtain srt vals hn h2 where
    srt: "lamport_sort cs = Inr srt" and
    cl: "cands_loop h a k' (rev srt) [] = Inr (vals, hn)" and
    st: "store_slot hn a k' (rev srt) vals = Inr h2" and
    rest: "props_loop h2 a qs = Inr h'"
    by (auto split: sum.splits prod.splits)
  have al: "a < length h" using Cons.prems(3) by (rule heap_get_length)
  have e: "conflicts_above a []" by (simp add: conflicts_above_def)
  from ordered_frame(5) [OF Cons.prems(2) al e cl]
  have on: "ordered hn" and fn: "frame (Suc a) h hn" and vn: "conflicts_above a vals"
    by auto
  from frame_heap_get [OF fn Cons.prems(3)] have gn: "heap_get hn a = Some ob" .
  from Cons.prems(4) q have kk: "k \<noteq> k'" by auto
  from Cons.prems(5) q srt
  have c: "is_map ob \<or> (index_key k \<and> index_key k' \<and> rev srt \<noteq> [])"
    by (auto dest: lamport_sort_nonempty)
  from store_slot_other [OF st gn kk c] obtain ob2 where
    g2: "heap_get h2 a = Some ob2" "get_item ob2 k = get_item ob k"
      "get_recent ob2 k = get_recent ob k" "is_map ob2 = is_map ob"
    by blast
  from store_slot_ordered [OF on vn st] have o2: "ordered h2" by simp
  from Cons.prems(4) have k2: "k \<notin> fst ` set qs" by auto
  from Cons.prems(5) g2(4)
  have c2: "is_map ob2 \<or> (index_key k \<and> (\<forall>q \<in> set qs. index_key (fst q) \<and> snd q \<noteq> []))"
    by auto
  from Cons.IH [OF rest o2 g2(1) k2 c2] g2(2,3) show ?case by simp
qed




subsection \<open>Deletion\<close>

text \<open>
  For a \<^verbatim>\<open>Map\<close> in a well-formed store, an empty conflict set for a key that no later entry
  names again removes the key from the value and from the history, whenever
  \<^verbatim>\<open>apply_properties\<close> returns.
\<close>

lemma empty_conflict_set_deletes_map_key:
  assumes run: "apply_properties h (VRef a) (ps @ (k, []) # qs) = Inr h'"
    and tree: "ordered h"
    and ob: "heap_get h a = Some ob"
    and kind: "is_map ob"
    and later: "k \<notin> fst ` set qs"
  shows "\<exists>ob'. heap_get h' a = Some ob' \<and> get_item ob' k = None \<and> get_recent ob' k = None"
proof -
  have al: "a < length h" using ob by (rule heap_get_length)
  from run ob have "props_loop h a (ps @ (k, []) # qs) = Inr h'"
    by (simp add: apply_properties.simps [of h "VRef a"])
  then obtain h0 hk where h0: "props_loop h a ps = Inr h0"
    and st: "store_slot h0 a k [] [] = Inr hk"
    and after: "props_loop hk a qs = Inr h'"
    by (auto simp: props_loop_append split: sum.splits)
  from ordered_frame(4) [OF tree al h0] have o0: "ordered h0" by simp
  from props_loop_kind [OF h0 tree ob] kind obtain ob0 where
    ob0: "heap_get h0 a = Some ob0" and kind0: "is_map ob0" by auto
  have e: "conflicts_above a []" by (simp add: conflicts_above_def)
  from store_slot_ordered [OF o0 e st] have ok: "ordered hk" by simp
  from st ob0 obtain ob1 ob2 where
    d: "del_item ob0 k = Inr ob1" "del_recent ob1 k = Inr ob2" "hk = h0[a := ob2]"
    by (cases rule: store_slot_cases) auto
  from kind0 d(1,2) have gone: "get_item ob2 k = None" "get_recent ob2 k = None" "is_map ob2"
    by (cases ob0; auto simp: dict_delitem_def delete_conv' split: option.splits)+
  from d(3) heap_get_update [OF ob0] have gk: "heap_get hk a = Some ob2" by simp
  from gone(3) have "is_map ob2 \<or>
      (index_key k \<and> (\<forall>q \<in> set qs. index_key (fst q) \<and> snd q \<noteq> []))" by simp
  from props_loop_slot [OF after ok gk later this] gone(1,2) show ?thesis
    by auto
qed

text \<open>
  Claim C5. For a \<^verbatim>\<open>List\<close>, an empty \<^verbatim>\<open>props\<close> entry is to remove the history entry only;
  positions are to be removed by edits and never by an empty \<^verbatim>\<open>props\<close> entry. With no edit
  at all, the entry \<^verbatim>\<open>{0: {}}\<close> turns the values \<^verbatim>\<open>[1, 2]\<close> into \<^verbatim>\<open>[2]\<close> and the history into
  its second entry alone, and leaves both element ids: \<^verbatim>\<open>del obj[key]\<close> and
  \<^verbatim>\<open>del our_recent_ops[key]\<close> delete the position from two of the three sequences. (For
  a \<^verbatim>\<open>Map\<close> the claim holds: \<open>empty_conflict_set_deletes_map_key\<close>.)
\<close>

theorem empty_conflict_set_removes_list_position:
  "apply_patch
     [ListObj ''l'' True [VPrim (PInt 1), VPrim (PInt 2)] [''1@A'', ''2@A'']
        [Some [(''1@A'', VPrim (PInt 1))], Some [(''2@A'', VPrim (PInt 2))]]]
     (VRef 0)
     (Patch (Some ''l'') (Some ''list'') None None (Some [(KInt 0, [])]) (Some []))
   = Inr (VRef 0,
       [ListObj ''l'' True [VPrim (PInt 2)] [''1@A'', ''2@A'']
          [Some [(''2@A'', VPrim (PInt 2))]]])"
  by code_simp

end
